theory Spec2Isabelle
  imports Complex_Main
begin

section \<open>FontData: character tables by variant, and stretchy delimiters\<close>

text \<open>
  A shallow embedding of the class \<open>FontData\<close> of
  \<^verbatim>\<open>src/mathjax3-ts/output/chtml/FontData.ts\<close>.

  The character tables are JavaScript objects linked by their prototypes, and the same
  table can be reached from several variants (as a prototype, and through the
  \<open>linked\<close> arrays), so they live in an explicit store: a list of objects, an address
  being an index into it. \<open>Object.create\<close> and the literal \<open>{}\<close> append a new
  object. A \<open>VariantData\<close> object, the table of variants, the table of delimiters
  and the parameters are reached from one place of one instance only, and are held by
  value; so are the character and delimiter entries, which instances share with the
  class but no method writes into.

  Numbers used as property keys and array indexes (character numbers, delimiter numbers,
  size indexes) are \<open>int\<close>; the metric values, which the class only stores, are
  \<open>real\<close>. The type \<open>OptionList\<close> is imported by the source from a module that is
  not part of it, and is the type parameter \<open>'o\<close>.
\<close>

subsection \<open>Data\<close>

datatype 'o CharData =
    CharData3 real real real
  | CharData4 real real real real
  | CharData5 real real real real real
  | CharData6 real real real real real 'o

type_synonym 'o CharMap = "int \<rightharpoonup> 'o CharData"

type_synonym addr = nat

text \<open>
  A character table in the store: its prototype (\<open>None\<close> for an object made by
  \<open>{}\<close>, whose prototype \<open>Object.prototype\<close> has no property named by a number)
  and its own properties.
\<close>

record 'o CharMapObj =
  proto :: "addr option"
  own :: "'o CharMap"

type_synonym 'o heap = "'o CharMapObj list"

record VariantData =
  linked :: "addr list"
  chars :: addr

record DelimiterData =
  dir :: string
  sizes :: "real list option"
  variants :: "int list option"
  stretch :: "int list option"
  HDW :: "real list option"

record FontParameters =
  x_height :: real
  quad :: real
  num1 :: real
  num2 :: real
  num3 :: real
  denom1 :: real
  denom2 :: real
  sup1 :: real
  sup2 :: real
  sup3 :: real
  sub1 :: real
  sub2 :: real
  sup_drop :: real
  sub_drop :: real
  delim1 :: real
  delim2 :: real
  axis_height :: real
  rule_thickness :: real
  big_op_spacing1 :: real
  big_op_spacing2 :: real
  big_op_spacing3 :: real
  big_op_spacing4 :: real
  big_op_spacing5 :: real
  surd_height :: real
  scriptspace :: real
  nulldelimiterspace :: real
  delimiterfactor :: real
  delimitershortfall :: real
  min_rule_thickness :: real

text \<open>The instance fields of a \<open>FontData\<close>.\<close>

record FontData =
  variant :: "string \<rightharpoonup> VariantData"
  delimiters :: "int \<rightharpoonup> DelimiterData"
  sizeVariants :: "string list"
  params :: FontParameters

text \<open>The static fields of the class (a subclass for a font overrides them).\<close>

record 'o FontClass =
  defaultVariants :: "string list list"
  defaultParams :: FontParameters
  defaultDelimiters :: "int \<rightharpoonup> DelimiterData"
  defaultChars :: "(string \<times> 'o CharMap) list"
  defaultSizeVariants :: "string list"

text \<open>Reading a property of \<open>undefined\<close> and its like throw a \<open>TypeError\<close>.\<close>

datatype error = TypeError

subsection \<open>The object store\<close>

definition alloc :: "'o heap \<Rightarrow> 'o CharMapObj \<Rightarrow> 'o heap \<times> addr" where
  "alloc h obj = (h @ [obj], length h)"

text \<open>
  \<open>Object.assign(target, source)\<close> on character tables: the own properties of the
  source are written over the target's own properties. Every address the class holds is
  allocated, so the update is never out of range.
\<close>

definition assign :: "'o heap \<Rightarrow> addr \<Rightarrow> 'o CharMap \<Rightarrow> 'o heap" where
  "assign h a m = h[a := (h ! a)\<lparr>own := own (h ! a) ++ m\<rparr>]"

text \<open>
  The prototype chain of an object, nearest first. An object's prototype is fixed when
  the object is made and is an object that exists already, so its address is smaller:
  the test \<open>p < a\<close> holds in every store the class builds (\<open>wf_heap\<close> below), and
  the chain is finite, as every prototype chain of JavaScript is.
\<close>

function chain :: "'o heap \<Rightarrow> addr \<Rightarrow> addr list" where
  "chain h a =
     (if a < length h then
        a # (case proto (h ! a) of
               None \<Rightarrow> []
             | Some p \<Rightarrow> if p < a then chain h p else [])
      else [])"
  by pat_completeness auto
termination
  by (relation "measure (\<lambda>(h, a). a)") auto

declare chain.simps [simp del]

text \<open>\<open>obj[n]\<close>: the own property, else the prototype's, else \<open>undefined\<close>.\<close>

function get_prop :: "'o heap \<Rightarrow> addr \<Rightarrow> int \<Rightarrow> 'o CharData option" where
  "get_prop h a n =
     (if a < length h then
        (case own (h ! a) n of
           Some x \<Rightarrow> Some x
         | None \<Rightarrow>
             (case proto (h ! a) of
                None \<Rightarrow> None
              | Some p \<Rightarrow> if p < a then get_prop h p n else None))
      else None)"
  by pat_completeness auto
termination
  by (relation "measure (\<lambda>(h, a, n). a)") auto

declare get_prop.simps [simp del]

text \<open>The first object of a list of addresses that has the property itself.\<close>

fun first_own :: "'o heap \<Rightarrow> addr list \<Rightarrow> int \<Rightarrow> 'o CharData option" where
  "first_own h [] n = None"
| "first_own h (a # as) n =
     (case own (h ! a) n of Some x \<Rightarrow> Some x | None \<Rightarrow> first_own h as n)"

definition wf_heap :: "'o heap \<Rightarrow> bool" where
  "wf_heap h = (\<forall>a < length h. \<forall>p. proto (h ! a) = Some p \<longrightarrow> p < a)"

subsection \<open>The table of variants\<close>

text \<open>
  \<open>this.variant\<close> is made by \<open>{}\<close>, so \<open>this.variant[name]\<close> also finds what the
  object inherits from \<open>Object.prototype\<close>: a function for each of its method names,
  and for \<open>__proto__\<close> the prototype itself. None of these has a \<open>chars\<close> or a
  \<open>linked\<close> property, and all are truthy. The assignment
  \<open>this.variant['__proto__'] = variant\<close> makes the new \<open>VariantData\<close> the
  prototype of the table: it is then what \<open>this.variant['__proto__']\<close> reads, and its
  two fields are found under the names \<open>linked\<close> and \<open>chars\<close>, an array and a
  character table, again without \<open>chars\<close> or \<open>linked\<close> of their own. The field
  \<open>variant\<close> of the model holds the entry under the key \<open>__proto__\<close> like any
  other.
\<close>

definition object_prototype_keys :: "string list" where
  "object_prototype_keys =
     [''constructor'', ''hasOwnProperty'', ''isPrototypeOf'', ''propertyIsEnumerable'',
      ''toLocaleString'', ''toString'', ''valueOf'', ''__proto__'',
      ''__defineGetter__'', ''__defineSetter__'', ''__lookupGetter__'',
      ''__lookupSetter__'']"

datatype variant_value = Undefined | NonVariant | Variant VariantData

definition variant_get :: "FontData \<Rightarrow> string \<Rightarrow> variant_value" where
  "variant_get this name =
     (case variant this name of
        Some v \<Rightarrow> Variant v
      | None \<Rightarrow>
          if name \<in> set object_prototype_keys
             \<or> (variant this ''__proto__'' \<noteq> None \<and> name \<in> {''linked'', ''chars''})
          then NonVariant else Undefined)"

subsection \<open>The methods\<close>

text \<open>
  \<open>createVariant\<close>. A parameter that is \<open>null\<close> or \<open>undefined\<close> is \<open>None\<close>;
  the tests \<open>inherit ? \<dots>\<close> and \<open>link && \<dots>\<close> are tests of truthiness, and the
  empty string is falsy.
\<close>

definition createVariant ::
  "'o heap \<Rightarrow> FontData \<Rightarrow> string \<Rightarrow> string option \<Rightarrow> string option
     \<Rightarrow> error + ('o heap \<times> FontData)" where
  "createVariant h this name inherit link =
     (case (case inherit of
              None \<Rightarrow> Inr None
            | Some i \<Rightarrow>
                if i = [] then Inr None
                else (case variant_get this i of
                        Variant vi \<Rightarrow> Inr (Some (chars vi))
                      | _ \<Rightarrow> Inl TypeError)) of
        Inl e \<Rightarrow> Inl e
      | Inr pr \<Rightarrow>
          (let (h1, a) = alloc h \<lparr>proto = pr, own = Map.empty\<rparr>;
               unlinked = Inr (h1, this\<lparr>variant := (variant this)(name \<mapsto> \<lparr>linked = [], chars = a\<rparr>)\<rparr>)
           in case link of
                None \<Rightarrow> unlinked
              | Some l \<Rightarrow>
                  if l = [] then unlinked
                  else (case variant_get this l of
                          Undefined \<Rightarrow> unlinked
                        | NonVariant \<Rightarrow> Inl TypeError
                        | Variant vl \<Rightarrow>
                            (let h2 = assign h1 a (own (h1 ! chars vl));
                                 pushed = (variant this)(l \<mapsto> vl\<lparr>linked := linked vl @ [a]\<rparr>);
                                 (h3, t) = alloc h2 \<lparr>proto = Some a, own = Map.empty\<rparr>
                             in Inr (h3, this\<lparr>variant := pushed(name \<mapsto> \<lparr>linked = [], chars = t\<rparr>)\<rparr>)))))"

text \<open>
  \<open>createVariants\<close>: \<open>variant[0]\<close>, \<open>variant[1]\<close> and \<open>variant[2]\<close> of each
  entry; a missing one is \<open>undefined\<close>, which as the name is the property key
  \<open>undefined\<close>.
\<close>

definition nth_opt :: "'a list \<Rightarrow> nat \<Rightarrow> 'a option" where
  "nth_opt xs i = (if i < length xs then Some (xs ! i) else None)"

definition key_of :: "string option \<Rightarrow> string" where
  "key_of k = (case k of None \<Rightarrow> ''undefined'' | Some s \<Rightarrow> s)"

fun createVariants ::
  "'o heap \<Rightarrow> FontData \<Rightarrow> string list list \<Rightarrow> error + ('o heap \<times> FontData)" where
  "createVariants h this [] = Inr (h, this)"
| "createVariants h this (v # vs) =
     (case createVariant h this (key_of (nth_opt v 0)) (nth_opt v 1) (nth_opt v 2) of
        Inl e \<Rightarrow> Inl e
      | Inr (h', this') \<Rightarrow> createVariants h' this' vs)"

definition defineChars ::
  "'o heap \<Rightarrow> FontData \<Rightarrow> string \<Rightarrow> 'o CharMap \<Rightarrow> error + ('o heap \<times> FontData)" where
  "defineChars h this name cs =
     (case variant_get this name of
        Variant v \<Rightarrow> Inr (fold (\<lambda>link h'. assign h' link cs) (linked v) (assign h (chars v) cs), this)
      | _ \<Rightarrow> Inl TypeError)"

definition defineDelimiters :: "FontData \<Rightarrow> (int \<rightharpoonup> DelimiterData) \<Rightarrow> FontData" where
  "defineDelimiters this delims = this\<lparr>delimiters := delimiters this ++ delims\<rparr>"

definition getDelimiter :: "FontData \<Rightarrow> int \<Rightarrow> DelimiterData option" where
  "getDelimiter this n = delimiters this n"

text \<open>\<open>xs[i]\<close> on an array: \<open>undefined\<close> outside of it.\<close>

definition js_index :: "'a list \<Rightarrow> int \<Rightarrow> 'a option" where
  "js_index xs i = (if 0 \<le> i \<and> i < int (length xs) then Some (xs ! nat i) else None)"

text \<open>
  \<open>getSizeVariant\<close>. An array is truthy, so the test is whether the field
  \<open>variants\<close> is there. After \<open>i = variants[i]\<close> the index can be
  \<open>undefined\<close>, and \<open>sizeVariants[undefined]\<close> is \<open>undefined\<close>.
\<close>

definition getSizeVariant :: "FontData \<Rightarrow> int \<Rightarrow> int \<Rightarrow> error + string option" where
  "getSizeVariant this n i =
     (case delimiters this n of
        None \<Rightarrow> Inl TypeError
      | Some d \<Rightarrow>
          (case variants d of
             Some vs \<Rightarrow>
               (case js_index vs i of
                  None \<Rightarrow> Inr None
                | Some i' \<Rightarrow> Inr (js_index (sizeVariants this) i'))
           | None \<Rightarrow> Inr (js_index (sizeVariants this) i)))"

definition getChar :: "'o heap \<Rightarrow> FontData \<Rightarrow> string \<Rightarrow> int \<Rightarrow> error + 'o CharData option" where
  "getChar h this name n =
     (case variant_get this name of
        Variant v \<Rightarrow> Inr (get_prop h (chars v) n)
      | _ \<Rightarrow> Inl TypeError)"

definition getVariant :: "FontData \<Rightarrow> string \<Rightarrow> variant_value" where
  "getVariant this name = variant_get this name"

subsection \<open>The constructor\<close>

fun defineAllChars ::
  "'o heap \<Rightarrow> FontData \<Rightarrow> (string \<times> 'o CharMap) list \<Rightarrow> error + ('o heap \<times> FontData)" where
  "defineAllChars h this [] = Inr (h, this)"
| "defineAllChars h this ((name, cs) # rest) =
     (case defineChars h this name cs of
        Inl e \<Rightarrow> Inl e
      | Inr (h', this') \<Rightarrow> defineAllChars h' this' rest)"

text \<open>
  The constructor of an instance of the class \<open>C\<close>, in the store \<open>h\<close>: the
  field initialisers, then the body. \<open>defaultChars\<close> lists the properties of the
  static object in the order of \<open>Object.keys\<close>.
\<close>

definition FontData_new :: "'o heap \<Rightarrow> 'o FontClass \<Rightarrow> error + ('o heap \<times> FontData)" where
  "FontData_new h C =
     (let this = \<lparr>variant = Map.empty, delimiters = Map.empty,
                  sizeVariants = defaultSizeVariants C, params = defaultParams C\<rparr>
      in case createVariants h this (defaultVariants C) of
           Inl e \<Rightarrow> Inl e
         | Inr (h1, this1) \<Rightarrow>
             defineAllChars h1 (defineDelimiters this1 (defaultDelimiters C)) (defaultChars C))"

text \<open>The static fields of \<open>FontData\<close> itself.\<close>

definition FontData_defaultParams :: FontParameters where
  "FontData_defaultParams =
     \<lparr>x_height = 0.442, quad = 1, num1 = 0.676, num2 = 0.394, num3 = 0.444,
      denom1 = 0.686, denom2 = 0.345, sup1 = 0.413, sup2 = 0.363, sup3 = 0.289,
      sub1 = 0.15, sub2 = 0.247, sup_drop = 0.386, sub_drop = 0.05,
      delim1 = 2.39, delim2 = 1.0, axis_height = 0.25, rule_thickness = 0.06,
      big_op_spacing1 = 0.111, big_op_spacing2 = 0.167, big_op_spacing3 = 0.2,
      big_op_spacing4 = 0.45, big_op_spacing5 = 0.1, surd_height = 0.075,
      scriptspace = 0.05, nulldelimiterspace = 0.12, delimiterfactor = 901,
      delimitershortfall = 0.3, min_rule_thickness = 1.25\<rparr>"

definition FontData_class :: "'o FontClass" where
  "FontData_class =
     \<lparr>defaultVariants =
        [ [''normal''],
         [''bold'', ''normal''],
         [''italic'', ''normal''],
         [''bold-italic'', ''italic'', ''bold''],
         [''double-struck'', ''bold''],
         [''fraktur'', ''normal''],
         [''bold-fraktur'', ''bold'', ''fraktur''],
         [''script'', ''normal''],
         [''bold-script'', ''bold'', ''script''],
         [''sans-serif'', ''normal''],
         [''bold-sans-serif'', ''bold'', ''sans-serif''],
         [''sans-serif-italic'', ''italic'', ''sans-serif''],
         [''bold-sans-serif-italic'', ''bold-italic'', ''sans-serif''],
         [''monospace'', ''normal''] ],
      defaultParams = FontData_defaultParams,
      defaultDelimiters = Map.empty,
      defaultChars = [],
      defaultSizeVariants = []\<rparr>"

subsection \<open>Sequences of calls\<close>

datatype 'o call =
    CreateVariant string "string option" "string option"
  | DefineChars string "'o CharMap"
  | DefineDelimiters "int \<rightharpoonup> DelimiterData"

fun do_call :: "'o call \<Rightarrow> 'o heap \<times> FontData \<Rightarrow> error + ('o heap \<times> FontData)" where
  "do_call (CreateVariant name inherit link) (h, this) = createVariant h this name inherit link"
| "do_call (DefineChars name cs) (h, this) = defineChars h this name cs"
| "do_call (DefineDelimiters delims) (h, this) = Inr (h, defineDelimiters this delims)"

text \<open>The calls in order; the first exception ends the sequence.\<close>

fun do_calls :: "'o call list \<Rightarrow> 'o heap \<times> FontData \<Rightarrow> error + ('o heap \<times> FontData)" where
  "do_calls [] s = Inr s"
| "do_calls (c # cs) s = (case do_call c s of Inl e \<Rightarrow> Inl e | Inr s' \<Rightarrow> do_calls cs s')"

text \<open>The variant a call creates anew, and whether a call defines a character of a variant.\<close>

fun creates :: "'o call \<Rightarrow> string \<Rightarrow> bool" where
  "creates (CreateVariant name inherit link) V = (name = V)"
| "creates (DefineChars name cs) V = False"
| "creates (DefineDelimiters delims) V = False"

fun defines_char :: "'o call \<Rightarrow> string \<Rightarrow> int \<Rightarrow> bool" where
  "defines_char (CreateVariant name inherit link) V n = False"
| "defines_char (DefineChars name cs) V n = (name = V \<and> cs n \<noteq> None)"
| "defines_char (DefineDelimiters delims) V n = False"

text \<open>The queries of the class, and what they return.\<close>

datatype query =
    GetChar string int
  | GetDelimiter int
  | GetSizeVariant int int
  | GetVariant string
  | Params

datatype 'o answer =
    CharAnswer "error + 'o CharData option"
  | DelimiterAnswer "DelimiterData option"
  | SizeVariantAnswer "error + string option"
  | VariantAnswer variant_value
  | ParamsAnswer FontParameters

fun do_query :: "'o heap \<Rightarrow> FontData \<Rightarrow> query \<Rightarrow> 'o answer" where
  "do_query h this (GetChar name n) = CharAnswer (getChar h this name n)"
| "do_query h this (GetDelimiter n) = DelimiterAnswer (getDelimiter this n)"
| "do_query h this (GetSizeVariant n i) = SizeVariantAnswer (getSizeVariant this n i)"
| "do_query h this (GetVariant name) = VariantAnswer (getVariant this name)"
| "do_query h this Params = ParamsAnswer (params this)"

subsection \<open>Invariants\<close>

text \<open>The own properties of the table \<open>this.variant[name].chars\<close>.\<close>

definition own_table :: "'o heap \<Rightarrow> FontData \<Rightarrow> string \<Rightarrow> 'o CharMap" where
  "own_table h this name =
     (case variant this name of None \<Rightarrow> Map.empty | Some v \<Rightarrow> own (h ! chars v))"

text \<open>
  What holds of every font the class builds: the addresses it holds are allocated, two
  names have two tables, and no table of a variant is in a \<open>linked\<close> array (the
  arrays hold the copies made by \<open>createVariant\<close>, which are prototypes of tables).
\<close>

definition wf_font :: "'o heap \<Rightarrow> FontData \<Rightarrow> bool" where
  "wf_font h this =
     (\<forall>n v. variant this n = Some v \<longrightarrow>
        chars v < length h \<and> (\<forall>l \<in> set (linked v). l < length h) \<and>
        (\<forall>n' v'. variant this n' = Some v' \<longrightarrow>
           (chars v' = chars v \<longrightarrow> n' = n) \<and> chars v' \<notin> set (linked v)))"

text \<open>The addresses a font holds: the only ones at which its methods write.\<close>

definition font_addrs :: "FontData \<Rightarrow> addr set" where
  "font_addrs this = {a. \<exists>n v. variant this n = Some v \<and> (a = chars v \<or> a \<in> set (linked v))}"

text \<open>A set of objects that holds the prototypes of its members.\<close>

definition proto_closed :: "'o heap \<Rightarrow> addr set \<Rightarrow> bool" where
  "proto_closed h S = (\<forall>a \<in> S. a < length h \<and> (\<forall>p. proto (h ! a) = Some p \<longrightarrow> p \<in> S))"

text \<open>
  A font built in the part of the store from the address \<open>lo\<close> on: it holds
  addresses of that part only, and the objects of that part have their prototypes in it.
\<close>

definition owns_region :: "'o heap \<Rightarrow> FontData \<Rightarrow> nat \<Rightarrow> bool" where
  "owns_region h this lo =
     (lo \<le> length h \<and> (\<forall>a \<in> font_addrs this. lo \<le> a \<and> a < length h)
      \<and> proto_closed h {lo..<length h})"

text \<open>
  The constructor as a sequence of calls on the font of the field initialisers.
\<close>

definition initial_font :: "'o FontClass \<Rightarrow> FontData" where
  "initial_font C = \<lparr>variant = Map.empty, delimiters = Map.empty,
                     sizeVariants = defaultSizeVariants C, params = defaultParams C\<rparr>"

definition constructor_calls :: "'o FontClass \<Rightarrow> 'o call list" where
  "constructor_calls C =
     map (\<lambda>v. CreateVariant (key_of (nth_opt v 0)) (nth_opt v 1) (nth_opt v 2)) (defaultVariants C)
     @ [DefineDelimiters (defaultDelimiters C)]
     @ map (\<lambda>(name, cs). DefineChars name cs) (defaultChars C)"

subsection \<open>Example data\<close>

text \<open>
  A font with two delimiters, the first without the field \<open>variants\<close> and the second
  with it, and three size variants.
\<close>

definition paren_delim :: DelimiterData where
  "paren_delim = \<lparr>dir = ''V'', sizes = Some [1, 1.2, 1.8], variants = None,
                   stretch = None, HDW = None\<rparr>"

definition brace_delim :: DelimiterData where
  "brace_delim = \<lparr>dir = ''V'', sizes = Some [1, 1.2, 1.8], variants = Some [2, 0, 1],
                   stretch = Some [9127, 9130, 9129, 9128], HDW = Some [0.75, 0.25, 0.9]\<rparr>"

definition delim_font :: FontData where
  "delim_font =
     \<lparr>variant = Map.empty, delimiters = [40 \<mapsto> paren_delim, 123 \<mapsto> brace_delim],
      sizeVariants = [''a'', ''b'', ''c''], params = FontData_defaultParams\<rparr>"

text \<open>
  A font class with four variants, the last with a link, and its instance made in the
  empty store.
\<close>

definition small_class :: "unit FontClass" where
  "small_class =
     \<lparr>defaultVariants =
        [ [''normal''], [''bold'', ''normal''], [''italic'', ''normal''],
         [''bold-italic'', ''italic'', ''bold''] ],
      defaultParams = FontData_defaultParams,
      defaultDelimiters = [40 \<mapsto> paren_delim],
      defaultChars =
        [(''normal'', [65 \<mapsto> CharData3 0.683 0 0.75, 66 \<mapsto> CharData3 0.683 0 0.708]),
         (''bold'', [65 \<mapsto> CharData3 0.698 0 0.869])],
      defaultSizeVariants = [''normal'', ''bold'']\<rparr>"

definition small_heap :: "unit heap" where
  "small_heap =
     [\<lparr>proto = None,
       own = [65 \<mapsto> CharData3 0.683 0 0.75, 66 \<mapsto> CharData3 0.683 0 0.708]\<rparr>,
      \<lparr>proto = Some 0, own = [65 \<mapsto> CharData3 0.698 0 0.869]\<rparr>,
      \<lparr>proto = Some 0, own = Map.empty\<rparr>,
      \<lparr>proto = Some 2, own = [65 \<mapsto> CharData3 0.698 0 0.869]\<rparr>,
      \<lparr>proto = Some 3, own = Map.empty\<rparr>]"

definition small_font :: FontData where
  "small_font =
     \<lparr>variant =
        [''normal'' \<mapsto> \<lparr>linked = [], chars = 0\<rparr>,
         ''italic'' \<mapsto> \<lparr>linked = [], chars = 2\<rparr>,
         ''bold'' \<mapsto> \<lparr>linked = [3], chars = 1\<rparr>,
         ''bold-italic'' \<mapsto> \<lparr>linked = [], chars = 4\<rparr>],
      delimiters = [40 \<mapsto> paren_delim],
      sizeVariants = [''normal'', ''bold''],
      params = FontData_defaultParams\<rparr>"

text \<open>
  The example font after \<open>createVariant('script', \<dots>)\<close> without a link: one more
  table, with the prototype \<open>pr\<close>, and one more variant.
\<close>

definition script_heap :: "addr option \<Rightarrow> unit heap" where
  "script_heap pr = small_heap @ [\<lparr>proto = pr, own = Map.empty\<rparr>]"

definition script_font :: FontData where
  "script_font =
     small_font\<lparr>variant := (variant small_font)(''script'' \<mapsto>
       \<lparr>linked = [], chars = length small_heap\<rparr>)\<rparr>"

section \<open>Properties\<close>

subsection \<open>Prototype chains\<close>

lemma variant_get_Variant:
  "(variant_get this name = Variant v) = (variant this name = Some v)"
  by (auto simp: variant_get_def split: option.splits)

lemma variant_get_Some [simp]:
  "variant this name = Some v \<Longrightarrow> variant_get this name = Variant v"
  by (simp add: variant_get_def)

lemma chain_out: "\<not> a < length h \<Longrightarrow> chain h a = []"
  by (subst chain.simps) simp

lemma chain_in:
  "a < length h \<Longrightarrow>
   chain h a = a # (case proto (h ! a) of None \<Rightarrow> [] | Some p \<Rightarrow> if p < a then chain h p else [])"
  by (subst chain.simps) simp

lemma chain_le: "x \<in> set (chain h a) \<Longrightarrow> x \<le> a \<and> x < length h"
proof (induction h a rule: chain.induct)
  case (1 h a)
  have a: "a < length h"
  proof (rule ccontr)
    assume "\<not> a < length h"
    with "1.prems" show False by (simp add: chain_out)
  qed
  show ?case
  proof (cases "x = a")
    case True
    with a show ?thesis by simp
  next
    case False
    from "1.prems" have "x \<in> set (a # (case proto (h ! a) of None \<Rightarrow> [] | Some p \<Rightarrow> if p < a then chain h p else []))"
      by (simp only: chain_in [OF a])
    with False obtain p where p: "proto (h ! a) = Some p" "p < a" "x \<in> set (chain h p)"
      by (cases "proto (h ! a)") (auto split: if_splits)
    with "1.IH" [OF a p(1) p(2)] show ?thesis by simp
  qed
qed

lemma get_prop_first_own: "get_prop h a n = first_own h (chain h a) n"
proof (induction h a n rule: get_prop.induct)
  case (1 h a n)
  then show ?case
    by (subst get_prop.simps, subst chain.simps) (simp split: option.splits)
qed

lemma first_own_None:
  "(first_own h as n = None) = (\<forall>a \<in> set as. own (h ! a) n = None)"
  by (induction as) (auto split: option.splits)

text \<open>
  C6. For a registered variant and a character number that none of the objects of the
  variant's prototype chain (its own table, the copy of the linked variant, the
  inherited tables) has, \<open>getChar\<close> returns \<open>undefined\<close>; for a name that is not
  registered it throws.
\<close>

theorem getChar_not_found:
  "(variant_get this name = Variant v \<and> (\<forall>a \<in> set (chain h (chars v)). own (h ! a) n = None)
      \<longrightarrow> getChar h this name n = Inr None)
   \<and> ((\<forall>v. variant_get this name \<noteq> Variant v) \<longrightarrow> getChar h this name n = Inl TypeError)"
proof (intro conjI impI)
  assume "variant_get this name = Variant v \<and> (\<forall>a \<in> set (chain h (chars v)). own (h ! a) n = None)"
  then show "getChar h this name n = Inr None"
    by (simp add: getChar_def get_prop_first_own first_own_None variant_get_Variant)
next
  assume "\<forall>v. variant_get this name \<noteq> Variant v"
  then show "getChar h this name n = Inl TypeError"
    by (cases "variant_get this name") (simp_all add: getChar_def)
qed

subsection \<open>Delimiters\<close>

text \<open>
  C4. For a registered delimiter \<open>n\<close> and a size index \<open>i\<close> in range,
  \<open>getSizeVariant(n, i)\<close> is \<open>sizeVariants[i]\<close> when the entry has no
  \<open>variants\<close> list and \<open>sizeVariants[variants[i]]\<close> when it has one. With the
  size variants \<open>["a", "b", "c"]\<close> it is \<open>"b"\<close> for the index 1 without a list,
  and \<open>"c"\<close> for the index 0 with the list \<open>[2, 0, 1]\<close>.
\<close>

theorem getSizeVariant_resolves:
  "(delimiters this n = Some d \<and> variants d = None
      \<and> 0 \<le> i \<and> i < int (length (sizeVariants this))
      \<longrightarrow> getSizeVariant this n i = Inr (Some (sizeVariants this ! nat i)))
   \<and> (delimiters this n = Some d \<and> variants d = Some vs \<and> 0 \<le> i \<and> i < int (length vs)
        \<and> 0 \<le> vs ! nat i \<and> vs ! nat i < int (length (sizeVariants this))
      \<longrightarrow> getSizeVariant this n i = Inr (Some (sizeVariants this ! nat (vs ! nat i))))
   \<and> (delimiters this n = Some d \<and> sizeVariants this = [''a'', ''b'', ''c'']
      \<longrightarrow> (variants d = None \<longrightarrow> getSizeVariant this n 1 = Inr (Some ''b''))
        \<and> (variants d = Some [2, 0, 1] \<longrightarrow> getSizeVariant this n 0 = Inr (Some ''c'')))"
  by (simp add: getSizeVariant_def js_index_def)

theorem getSizeVariant_resolves_witness:
  "getSizeVariant delim_font 40 1 = Inr (Some ''b'')
   \<and> getSizeVariant delim_font 123 0 = Inr (Some ''c'')
   \<and> getSizeVariant delim_font 123 2 = Inr (Some ''b'')"
  using getSizeVariant_resolves [of delim_font 40 paren_delim 1 "[]"]
    getSizeVariant_resolves [of delim_font 123 brace_delim 0 "[2, 0, 1]"]
    getSizeVariant_resolves [of delim_font 123 brace_delim 2 "[2, 0, 1]"]
  by (simp add: delim_font_def paren_delim_def brace_delim_def)

text \<open>
  C5, as stated: \<open>getSizeVariant\<close> fails when the resolved index is outside of the
  list of size variants. It does not: for the registered delimiter 40 and the size
  index 7, with three size variants, it returns \<open>undefined\<close>.
\<close>

theorem getSizeVariant_out_of_range_counterexample:
  "delimiters delim_font 40 = Some paren_delim \<and> variants paren_delim = None
   \<and> \<not> 7 < int (length (sizeVariants delim_font))
   \<and> getSizeVariant delim_font 40 7 = Inr None"
  by (simp add: getSizeVariant_def js_index_def delim_font_def paren_delim_def)

text \<open>
  C5, amended. \<open>getSizeVariant(code, sizeIndex)\<close> throws exactly when \<open>code\<close> is
  not a registered delimiter. For a registered one it returns \<open>undefined\<close>, without
  an error, whenever the resolved index (\<open>sizeIndex\<close>, or \<open>variants[sizeIndex]\<close>
  when the list is there) is outside of the list of size variants, and also when
  \<open>sizeIndex\<close> is outside of the list \<open>variants\<close>.
\<close>

theorem getSizeVariant_fails_iff:
  "(getSizeVariant this n i = Inl TypeError \<longleftrightarrow> delimiters this n = None)
   \<and> (delimiters this n = Some d \<and> variants d = None
        \<and> \<not> (0 \<le> i \<and> i < int (length (sizeVariants this)))
      \<longrightarrow> getSizeVariant this n i = Inr None)
   \<and> (delimiters this n = Some d \<and> variants d = Some vs \<and> 0 \<le> i \<and> i < int (length vs)
        \<and> \<not> (0 \<le> vs ! nat i \<and> vs ! nat i < int (length (sizeVariants this)))
      \<longrightarrow> getSizeVariant this n i = Inr None)
   \<and> (delimiters this n = Some d \<and> variants d = Some vs \<and> \<not> (0 \<le> i \<and> i < int (length vs))
      \<longrightarrow> getSizeVariant this n i = Inr None)"
  by (auto simp: getSizeVariant_def js_index_def split: option.splits)

theorem getSizeVariant_fails_iff_witness:
  "getSizeVariant delim_font 41 0 = Inl TypeError
   \<and> getSizeVariant delim_font 40 3 = Inr None
   \<and> getSizeVariant delim_font 123 (-1) = Inr None"
  using getSizeVariant_fails_iff [of delim_font 41 0 paren_delim "[]"]
    getSizeVariant_fails_iff [of delim_font 40 3 paren_delim "[]"]
    getSizeVariant_fails_iff [of delim_font 123 "-1" brace_delim "[2, 0, 1]"]
  by (simp add: delim_font_def paren_delim_def brace_delim_def)

text \<open>
  C8. After \<open>defineDelimiters({n: E})\<close>, \<open>getDelimiter(n)\<close> returns the entry
  \<open>E\<close> itself, so each of its fields is as it was defined.
\<close>

theorem defineDelimiters_getDelimiter:
  "getDelimiter (defineDelimiters this [n \<mapsto> E]) n = Some E"
  by (simp add: getDelimiter_def defineDelimiters_def)

subsection \<open>Writing character tables\<close>

lemma map_add_twice [simp]: "(m ++ e) ++ e = m ++ (e :: 'a \<rightharpoonup> 'b)"
  by (rule ext) (simp add: map_add_def split: option.splits)

lemma length_assign [simp]: "length (assign h a m) = length h"
  by (simp add: assign_def)

lemma proto_assign [simp]: "proto (assign h a m ! b) = proto (h ! b)"
  by (cases "a < length h") (simp_all add: assign_def nth_list_update list_update_beyond)

lemma own_assign:
  "own (assign h a m ! b) = (if b = a \<and> a < length h then own (h ! a) ++ m else own (h ! b))"
  by (cases "a < length h") (simp_all add: assign_def nth_list_update list_update_beyond)

lemma assign_id: "a < length h \<longrightarrow> own (h ! a) ++ m = own (h ! a) \<Longrightarrow> assign h a m = h"
  by (cases "a < length h") (simp_all add: assign_def list_update_same_conv list_update_beyond)

lemma length_fold_assign [simp]: "length (fold (\<lambda>l h'. assign h' l m) as h) = length h"
  by (induction as arbitrary: h) simp_all

lemma proto_fold_assign [simp]: "proto (fold (\<lambda>l h'. assign h' l m) as h ! b) = proto (h ! b)"
  by (induction as arbitrary: h) simp_all

lemma own_fold_assign:
  "own (fold (\<lambda>l h'. assign h' l m) as h ! b) =
     (if b \<in> set as \<and> b < length h then own (h ! b) ++ m else own (h ! b))"
  by (induction as arbitrary: h) (auto simp: own_assign)

lemma fold_assign_id:
  "\<forall>a \<in> set as. a < length h \<longrightarrow> own (h ! a) ++ m = own (h ! a) \<Longrightarrow>
   fold (\<lambda>l h'. assign h' l m) as h = h"
  by (induction as arbitrary: h) (simp_all add: assign_id)

lemma defineChars_Inr:
  "defineChars h this name cs = Inr (h', this') \<Longrightarrow>
   \<exists>v. variant this name = Some v \<and> this' = this
     \<and> h' = fold (\<lambda>l h'. assign h' l cs) (chars v # linked v) h"
  by (cases "variant_get this name") (auto simp: defineChars_def variant_get_Variant)

text \<open>
  C9. A second \<open>defineChars(V, E)\<close> right after the first changes nothing: it
  succeeds and leaves the store and the font as they were, so \<open>getChar\<close> returns
  for every variant and every character number what it returned after the first call.
\<close>

theorem defineChars_idempotent:
  assumes "defineChars h this V E = Inr (h1, this1)"
  shows "\<exists>h2 this2. defineChars h1 this1 V E = Inr (h2, this2)
           \<and> h2 = h1 \<and> this2 = this1
           \<and> (\<forall>W c. getChar h2 this2 W c = getChar h1 this1 W c)"
proof -
  from defineChars_Inr [OF assms] obtain v where v: "variant this V = Some v"
    and this1: "this1 = this"
    and h1: "h1 = fold (\<lambda>l h'. assign h' l E) (chars v # linked v) h"
    by blast
  have "\<forall>a \<in> set (chars v # linked v). a < length h1 \<longrightarrow> own (h1 ! a) ++ E = own (h1 ! a)"
    unfolding h1 by (simp only: own_fold_assign length_fold_assign) simp
  then have "fold (\<lambda>l h'. assign h' l E) (chars v # linked v) h1 = h1"
    by (rule fold_assign_id)
  then have "defineChars h1 this1 V E = Inr (h1, this1)"
    using v this1 by (simp add: defineChars_def)
  then show ?thesis by simp
qed

subsection \<open>Creating variants\<close>

lemma createVariant_cases:
  assumes "createVariant h this name inherit link = Inr (h', this')"
  obtains (unlinked) pr where
      "(pr = None \<and> (inherit = None \<or> inherit = Some []))
       \<or> (\<exists>i vi. inherit = Some i \<and> i \<noteq> [] \<and> variant this i = Some vi \<and> pr = Some (chars vi))"
      "h' = h @ [\<lparr>proto = pr, own = Map.empty\<rparr>]"
      "this' = this\<lparr>variant := (variant this)(name \<mapsto> \<lparr>linked = [], chars = length h\<rparr>)\<rparr>"
      "link = None \<or> link = Some [] \<or> (\<exists>l. link = Some l \<and> variant_get this l = Undefined)"
  | (linked) pr l vl where
      "(pr = None \<and> (inherit = None \<or> inherit = Some []))
       \<or> (\<exists>i vi. inherit = Some i \<and> i \<noteq> [] \<and> variant this i = Some vi \<and> pr = Some (chars vi))"
      "link = Some l" "l \<noteq> []" "variant this l = Some vl"
      "h' = h @ [\<lparr>proto = pr, own = own ((h @ [\<lparr>proto = pr, own = Map.empty\<rparr>]) ! chars vl)\<rparr>,
                 \<lparr>proto = Some (length h), own = Map.empty\<rparr>]"
      "this' = this\<lparr>variant := (variant this)(l \<mapsto> vl\<lparr>linked := linked vl @ [length h]\<rparr>,
                                                name \<mapsto> \<lparr>linked = [], chars = Suc (length h)\<rparr>)\<rparr>"
proof -
  define r where "r = (case inherit of
              None \<Rightarrow> Inr None
            | Some i \<Rightarrow>
                if i = [] then Inr None
                else (case variant_get this i of
                        Variant vi \<Rightarrow> Inr (Some (chars vi))
                      | _ \<Rightarrow> (Inl TypeError :: error + addr option)))"
  from assms obtain pr where pr: "r = Inr pr"
    by (cases r) (simp_all add: createVariant_def r_def)
  have prc: "(pr = None \<and> (inherit = None \<or> inherit = Some []))
       \<or> (\<exists>i vi. inherit = Some i \<and> i \<noteq> [] \<and> variant this i = Some vi \<and> pr = Some (chars vi))"
    using pr unfolding r_def
    by (auto split: option.splits if_splits variant_value.splits simp: variant_get_Variant)
  have eq: "createVariant h this name inherit link =
     (let (h1, a) = alloc h \<lparr>proto = pr, own = Map.empty\<rparr>;
               unlinked = Inr (h1, this\<lparr>variant := (variant this)(name \<mapsto> \<lparr>linked = [], chars = a\<rparr>)\<rparr>)
           in case link of
                None \<Rightarrow> unlinked
              | Some l \<Rightarrow>
                  if l = [] then unlinked
                  else (case variant_get this l of
                          Undefined \<Rightarrow> unlinked
                        | NonVariant \<Rightarrow> Inl TypeError
                        | Variant vl \<Rightarrow>
                            (let h2 = assign h1 a (own (h1 ! chars vl));
                                 pushed = (variant this)(l \<mapsto> vl\<lparr>linked := linked vl @ [a]\<rparr>);
                                 (h3, t) = alloc h2 \<lparr>proto = Some a, own = Map.empty\<rparr>
                             in Inr (h3, this\<lparr>variant := pushed(name \<mapsto> \<lparr>linked = [], chars = t\<rparr>)\<rparr>))))"
    using pr unfolding r_def createVariant_def by simp
  show thesis
  proof (cases "\<exists>l vl. link = Some l \<and> l \<noteq> [] \<and> variant this l = Some vl")
    case True
    then obtain l vl where l: "link = Some l" "l \<noteq> []" "variant this l = Some vl" by blast
    show thesis
    proof (rule linked [OF prc l])
      from assms l show "h' = h @ [\<lparr>proto = pr, own = own ((h @ [\<lparr>proto = pr, own = Map.empty\<rparr>]) ! chars vl)\<rparr>,
                 \<lparr>proto = Some (length h), own = Map.empty\<rparr>]"
        unfolding eq by (simp add: alloc_def assign_def)
      from assms l show "this' = this\<lparr>variant := (variant this)(l \<mapsto> vl\<lparr>linked := linked vl @ [length h]\<rparr>,
                                                name \<mapsto> \<lparr>linked = [], chars = Suc (length h)\<rparr>)\<rparr>"
        unfolding eq by (simp add: alloc_def assign_def)
    qed
  next
    case False
    then have nl: "link = None \<or> link = Some [] \<or> (\<exists>l. link = Some l \<and> l \<noteq> [] \<and> (\<forall>vl. variant_get this l \<noteq> Variant vl))"
      by (cases link) (auto simp: variant_get_Variant)
    show thesis
    proof (rule unlinked [OF prc])
      from assms nl show "h' = h @ [\<lparr>proto = pr, own = Map.empty\<rparr>]"
        unfolding eq by (auto simp: alloc_def split: variant_value.splits)
      from assms nl show "this' = this\<lparr>variant := (variant this)(name \<mapsto> \<lparr>linked = [], chars = length h\<rparr>)\<rparr>"
        unfolding eq by (auto simp: alloc_def split: variant_value.splits)
      from assms nl show "link = None \<or> link = Some [] \<or> (\<exists>l. link = Some l \<and> variant_get this l = Undefined)"
        unfolding eq by (auto simp: alloc_def split: variant_value.splits)
    qed
  qed
qed

lemma wf_fontI:
  assumes "\<And>n v. variant this n = Some v \<Longrightarrow> chars v < length h"
    and "\<And>n v l. variant this n = Some v \<Longrightarrow> l \<in> set (linked v) \<Longrightarrow> l < length h"
    and "\<And>n v n' v'. variant this n = Some v \<Longrightarrow> variant this n' = Some v' \<Longrightarrow>
           chars v' = chars v \<Longrightarrow> n' = n"
    and "\<And>n v n' v'. variant this n = Some v \<Longrightarrow> variant this n' = Some v' \<Longrightarrow>
           chars v' \<notin> set (linked v)"
  shows "wf_font h this"
  unfolding wf_font_def using assms by blast

lemma wf_chars: "wf_font h this \<Longrightarrow> variant this n = Some v \<Longrightarrow> chars v < length h"
  unfolding wf_font_def by blast

lemma wf_linked:
  "wf_font h this \<Longrightarrow> variant this n = Some v \<Longrightarrow> l \<in> set (linked v) \<Longrightarrow> l < length h"
  unfolding wf_font_def by blast

lemma wf_inj:
  "wf_font h this \<Longrightarrow> variant this n = Some v \<Longrightarrow> variant this n' = Some v' \<Longrightarrow>
   chars v' = chars v \<Longrightarrow> n' = n"
  unfolding wf_font_def by blast

lemma wf_top_not_linked:
  "wf_font h this \<Longrightarrow> variant this n = Some v \<Longrightarrow> variant this n' = Some v' \<Longrightarrow>
   chars v' \<notin> set (linked v)"
  unfolding wf_font_def by blast

text \<open>What \<open>createVariant\<close> does to the font and to the objects that were there.\<close>

lemma createVariant_summary:
  assumes cv: "createVariant h this name inherit link = Inr (h', this')"
  shows "\<exists>t. length h \<le> t \<and> t < length h' \<and> length h' \<le> length h + 2
           \<and> variant this' name = Some \<lparr>linked = [], chars = t\<rparr>
           \<and> (\<forall>n. n \<noteq> name \<longrightarrow>
                 variant this' n = variant this n
                 \<or> (\<exists>v. variant this n = Some v \<and> t = Suc (length h)
                        \<and> variant this' n = Some (v\<lparr>linked := linked v @ [length h]\<rparr>)))
           \<and> (\<forall>a < length h. h' ! a = h ! a)
           \<and> delimiters this' = delimiters this \<and> sizeVariants this' = sizeVariants this
           \<and> params this' = params this"
  using cv
proof (cases rule: createVariant_cases)
  case (unlinked pr)
  then show ?thesis
    by (intro exI [of _ "length h"]) (simp add: nth_append)
next
  case (linked pr l vl)
  then show ?thesis
    by (intro exI [of _ "Suc (length h)"]) (auto simp: nth_append)
qed

lemma wf_font_createVariant:
  assumes cv: "createVariant h this name inherit link = Inr (h', this')" and wf: "wf_font h this"
  shows "wf_font h' this'"
proof -
  from createVariant_summary [OF cv] obtain t where
    t: "length h \<le> t" "t < length h'" "length h' \<le> length h + 2"
    and new: "variant this' name = Some \<lparr>linked = [], chars = t\<rparr>"
    and old: "\<And>n. n \<noteq> name \<Longrightarrow> variant this' n = variant this n
                 \<or> (\<exists>v. variant this n = Some v \<and> t = Suc (length h)
                        \<and> variant this' n = Some (v\<lparr>linked := linked v @ [length h]\<rparr>))"
    by blast
  have old': "\<exists>v0. variant this n = Some v0 \<and> chars v = chars v0
                \<and> (linked v = linked v0 \<or> (linked v = linked v0 @ [length h] \<and> t = Suc (length h)))"
    if "n \<noteq> name" "variant this' n = Some v" for n v
    using old [OF that(1)] that(2) by (elim disjE exE conjE) auto
  show ?thesis
  proof (rule wf_fontI)
    fix n v assume nv: "variant this' n = Some v"
    show "chars v < length h'"
    proof (cases "n = name")
      case True with nv new t show ?thesis by auto
    next
      case False
      from old' [OF False nv] wf_chars [OF wf] t show ?thesis by fastforce
    qed
  next
    fix n v l assume nv: "variant this' n = Some v" and l: "l \<in> set (linked v)"
    show "l < length h'"
    proof (cases "n = name")
      case True with nv new l show ?thesis by auto
    next
      case False
      from old' [OF False nv] obtain v0 where v0: "variant this n = Some v0"
        "linked v = linked v0 \<or> (linked v = linked v0 @ [length h] \<and> t = Suc (length h))"
        by blast
      with l have "l \<in> set (linked v0) \<or> l = length h" by auto
      with wf_linked [OF wf v0(1)] t show ?thesis by fastforce
    qed
  next
    fix n v n' v'
    assume nv: "variant this' n = Some v" and nv': "variant this' n' = Some v'"
      and eq: "chars v' = chars v"
    show "n' = n"
    proof (cases "n = name")
      case True
      note n = this
      show ?thesis
      proof (cases "n' = name")
        case True with n show ?thesis by auto
      next
        case False
        from old' [OF False nv'] wf_chars [OF wf] have "chars v' < length h" by fastforce
        with nv new n eq t show ?thesis by auto
      qed
    next
      case False
      note n = this
      from old' [OF n nv] obtain v0 where v0: "variant this n = Some v0" "chars v = chars v0"
        by blast
      show ?thesis
      proof (cases "n' = name")
        case True
        from wf_chars [OF wf v0(1)] v0(2) have "chars v < length h" by auto
        with nv' new True eq t show ?thesis by auto
      next
        case False
        from old' [OF False nv'] obtain v0' where "variant this n' = Some v0'" "chars v' = chars v0'"
          by blast
        with wf_inj [OF wf v0(1), of n' v0'] v0(2) eq show ?thesis by auto
      qed
    qed
  next
    fix n v n' v'
    assume nv: "variant this' n = Some v" and nv': "variant this' n' = Some v'"
    show "chars v' \<notin> set (linked v)"
    proof (cases "n = name")
      case True with nv new show ?thesis by auto
    next
      case False
      from old' [OF False nv] obtain v0 where v0: "variant this n = Some v0"
        "linked v = linked v0 \<or> (linked v = linked v0 @ [length h] \<and> t = Suc (length h))"
        by blast
      show ?thesis
      proof (cases "n' = name")
        case True
        with nv' new have c: "chars v' = t" by auto
        have "t \<notin> set (linked v0)" using wf_linked [OF wf v0(1), of t] t by auto
        with v0(2) c show ?thesis by auto
      next
        case False
        from old' [OF False nv'] obtain v0' where v0': "variant this n' = Some v0'" "chars v' = chars v0'"
          by blast
        from wf_chars [OF wf v0'(1)] have "chars v0' \<noteq> length h" by auto
        with wf_top_not_linked [OF wf v0(1) v0'(1)] v0(2) v0'(2) show ?thesis by auto
      qed
    qed
  qed
qed

subsection \<open>What a call keeps\<close>

lemma nth_assign_other: "b \<noteq> a \<Longrightarrow> assign h a m ! b = h ! b"
  by (simp add: assign_def)

lemma nth_fold_assign_other: "b \<notin> set as \<Longrightarrow> fold (\<lambda>l h'. assign h' l m) as h ! b = h ! b"
  by (induction as arbitrary: h) (simp_all add: nth_assign_other)

lemma defineChars_summary:
  assumes "defineChars h this name cs = Inr (h', this')"
  shows "\<exists>v. variant this name = Some v \<and> this' = this \<and> length h' = length h
           \<and> (\<forall>b. proto (h' ! b) = proto (h ! b))
           \<and> (\<forall>b. b \<noteq> chars v \<longrightarrow> b \<notin> set (linked v) \<longrightarrow> h' ! b = h ! b)
           \<and> (\<forall>b. own (h' ! b) =
                 (if (b = chars v \<or> b \<in> set (linked v)) \<and> b < length h
                  then own (h ! b) ++ cs else own (h ! b)))"
proof -
  from defineChars_Inr [OF assms] obtain v where v: "variant this name = Some v"
    and this': "this' = this"
    and h': "h' = fold (\<lambda>l h'. assign h' l cs) (chars v # linked v) h"
    by blast
  have "length h' = length h" unfolding h' by (simp only: length_fold_assign)
  moreover have "\<forall>b. proto (h' ! b) = proto (h ! b)" unfolding h' by (simp only: proto_fold_assign) simp
  moreover have "\<forall>b. b \<noteq> chars v \<longrightarrow> b \<notin> set (linked v) \<longrightarrow> h' ! b = h ! b"
    unfolding h' using nth_fold_assign_other [of _ "chars v # linked v" cs h] by simp
  moreover have "\<forall>b. own (h' ! b) =
                 (if (b = chars v \<or> b \<in> set (linked v)) \<and> b < length h
                  then own (h ! b) ++ cs else own (h ! b))"
    unfolding h' by (simp only: own_fold_assign) simp
  ultimately show ?thesis using v this' by blast
qed

lemma wf_font_length: "length h' = length h \<Longrightarrow> wf_font h this \<Longrightarrow> wf_font h' this"
  by (simp add: wf_font_def)

lemma wf_font_delimiters: "wf_font h (defineDelimiters this d) = wf_font h this"
  by (simp add: wf_font_def defineDelimiters_def)

text \<open>One call: what it keeps.\<close>

lemma createVariant_keeps:
  assumes cv: "createVariant h this name inherit link = Inr (h', this')"
    and n: "n \<noteq> name" "variant this n = Some v"
  shows "\<exists>v'. variant this' n = Some v' \<and> chars v' = chars v \<and> set (linked v) \<subseteq> set (linked v')"
proof -
  from createVariant_summary [OF cv] obtain t where
    old: "\<And>n. n \<noteq> name \<Longrightarrow> variant this' n = variant this n
                 \<or> (\<exists>v. variant this n = Some v \<and> t = Suc (length h)
                        \<and> variant this' n = Some (v\<lparr>linked := linked v @ [length h]\<rparr>))"
    by blast
  from old [OF n(1)] n(2) show ?thesis by (elim disjE exE conjE) auto
qed

lemma createVariant_old:
  assumes cv: "createVariant h this name inherit link = Inr (h', this')"
  shows "length h < length h'" and "a < length h \<Longrightarrow> h' ! a = h ! a"
proof -
  from createVariant_summary [OF cv] obtain t where
    t: "length h \<le> t" "t < length h'" and same: "\<forall>a < length h. h' ! a = h ! a"
    by blast
  from t show "length h < length h'" by simp
  from same show "a < length h \<Longrightarrow> h' ! a = h ! a" by simp
qed

lemma do_call_wf:
  assumes c: "do_call c (h, this) = Inr (h', this')" and wf: "wf_font h this"
  shows "wf_font h' this'"
proof (cases c)
  case (CreateVariant name inherit link)
  with c have "createVariant h this name inherit link = Inr (h', this')" by simp
  from wf_font_createVariant [OF this wf] show ?thesis .
next
  case (DefineChars name cs)
  with c have "defineChars h this name cs = Inr (h', this')" by simp
  from defineChars_summary [OF this] have "this' = this" "length h' = length h" by auto
  with wf show ?thesis by (simp add: wf_font_length [of h' h])
next
  case (DefineDelimiters delims)
  with c have "h' = h" "this' = defineDelimiters this delims" by auto
  with wf show ?thesis by (simp add: wf_font_delimiters)
qed

lemma do_call_heap:
  assumes c: "do_call c (h, this) = Inr (h', this')"
  shows "length h \<le> length h'" and "a < length h \<Longrightarrow> proto (h' ! a) = proto (h ! a)"
proof -
  have "length h \<le> length h' \<and> (a < length h \<longrightarrow> proto (h' ! a) = proto (h ! a))"
  proof (cases c)
    case (CreateVariant name inherit link)
    with c have cv: "createVariant h this name inherit link = Inr (h', this')" by simp
    from createVariant_old [OF cv] show ?thesis by simp
  next
    case (DefineChars name cs)
    with c have "defineChars h this name cs = Inr (h', this')" by simp
    from defineChars_summary [OF this] show ?thesis by auto
  next
    case (DefineDelimiters delims)
    with c show ?thesis by auto
  qed
  then show "length h \<le> length h'" and "a < length h \<Longrightarrow> proto (h' ! a) = proto (h ! a)"
    by simp_all
qed

lemma do_call_variant:
  assumes c: "do_call c (h, this) = Inr (h', this')"
    and n: "\<not> creates c n" "variant this n = Some v"
  shows "\<exists>v'. variant this' n = Some v' \<and> chars v' = chars v \<and> set (linked v) \<subseteq> set (linked v')"
proof (cases c)
  case (CreateVariant name inherit link)
  with c have cv: "createVariant h this name inherit link = Inr (h', this')" by simp
  from CreateVariant n have "n \<noteq> name" by simp
  from createVariant_keeps [OF cv this n(2)] show ?thesis .
next
  case (DefineChars name cs)
  with c have "defineChars h this name cs = Inr (h', this')" by simp
  from defineChars_summary [OF this] have "this' = this" by auto
  with n show ?thesis by simp
next
  case (DefineDelimiters delims)
  with c have "this' = defineDelimiters this delims" by auto
  with n show ?thesis by (simp add: defineDelimiters_def)
qed

lemma do_call_own:
  assumes c: "do_call c (h, this) = Inr (h', this')" and wf: "wf_font h this"
    and n: "\<not> creates c n" "\<not> defines_char c n k" "variant this n = Some v"
  shows "own (h' ! chars v) k = own (h ! chars v) k"
proof (cases c)
  case (CreateVariant name inherit link)
  with c have cv: "createVariant h this name inherit link = Inr (h', this')" by simp
  from createVariant_old(2) [OF cv wf_chars [OF wf n(3)]] show ?thesis by simp
next
  case (DefineChars name cs)
  with c have dc: "defineChars h this name cs = Inr (h', this')" by simp
  from defineChars_summary [OF dc] obtain w where w: "variant this name = Some w"
    and ow: "\<And>b. own (h' ! b) =
                 (if (b = chars w \<or> b \<in> set (linked w)) \<and> b < length h
                  then own (h ! b) ++ cs else own (h ! b))"
    by blast
  show ?thesis
  proof (cases "name = n")
    case True
    with n(2) DefineChars have "cs k = None" by simp
    then show ?thesis by (simp add: ow map_add_def)
  next
    case False
    from wf_inj [OF wf w n(3)] False have "chars v \<noteq> chars w" by auto
    moreover from wf_top_not_linked [OF wf w n(3)] have "chars v \<notin> set (linked w)" .
    ultimately show ?thesis by (simp add: ow)
  qed
next
  case (DefineDelimiters delims)
  with c show ?thesis by auto
qed

subsection \<open>Sequences of calls, and lookups in a store that has grown\<close>

lemma do_calls_wf:
  "do_calls cs (h, this) = Inr (h', this') \<Longrightarrow> wf_font h this \<Longrightarrow> wf_font h' this'"
proof (induction cs arbitrary: h this)
  case Nil
  then show ?case by simp
next
  case (Cons c cs)
  from Cons.prems(1) obtain h1 this1 where c: "do_call c (h, this) = Inr (h1, this1)"
    and cs: "do_calls cs (h1, this1) = Inr (h', this')"
    by (cases "do_call c (h, this)") auto
  from Cons.IH [OF cs do_call_wf [OF c Cons.prems(2)]] show ?case .
qed

lemma do_calls_heap:
  "do_calls cs (h, this) = Inr (h', this') \<Longrightarrow>
   length h \<le> length h' \<and> (a < length h \<longrightarrow> proto (h' ! a) = proto (h ! a))"
proof (induction cs arbitrary: h this)
  case Nil
  then show ?case by simp
next
  case (Cons c cs)
  from Cons.prems(1) obtain h1 this1 where c: "do_call c (h, this) = Inr (h1, this1)"
    and cs: "do_calls cs (h1, this1) = Inr (h', this')"
    by (cases "do_call c (h, this)") auto
  from do_call_heap(1) [OF c] do_call_heap(2) [OF c, of a] Cons.IH [OF cs] show ?case by auto
qed

lemma do_calls_variant:
  "do_calls cs (h, this) = Inr (h', this') \<Longrightarrow> \<forall>c \<in> set cs. \<not> creates c n \<Longrightarrow>
   variant this n = Some v \<Longrightarrow>
   \<exists>v'. variant this' n = Some v' \<and> chars v' = chars v \<and> set (linked v) \<subseteq> set (linked v')"
proof (induction cs arbitrary: h this v)
  case Nil
  then show ?case by simp
next
  case (Cons c cs)
  from Cons.prems(1) obtain h1 this1 where c: "do_call c (h, this) = Inr (h1, this1)"
    and cs: "do_calls cs (h1, this1) = Inr (h', this')"
    by (cases "do_call c (h, this)") auto
  from Cons.prems(2) have nc: "\<not> creates c n" and ncs: "\<forall>c \<in> set cs. \<not> creates c n" by simp_all
  from do_call_variant [OF c nc Cons.prems(3)] obtain v1 where
    v1: "variant this1 n = Some v1" "chars v1 = chars v" "set (linked v) \<subseteq> set (linked v1)"
    by blast
  from Cons.IH [OF cs ncs v1(1)] v1(2,3) show ?case by auto
qed

lemma do_calls_own:
  "do_calls cs (h, this) = Inr (h', this') \<Longrightarrow> wf_font h this \<Longrightarrow>
   \<forall>c \<in> set cs. \<not> creates c n \<and> \<not> defines_char c n k \<Longrightarrow>
   variant this n = Some v \<Longrightarrow> own (h' ! chars v) k = own (h ! chars v) k"
proof (induction cs arbitrary: h this v)
  case Nil
  then show ?case by simp
next
  case (Cons c cs)
  from Cons.prems(1) obtain h1 this1 where c: "do_call c (h, this) = Inr (h1, this1)"
    and cs: "do_calls cs (h1, this1) = Inr (h', this')"
    by (cases "do_call c (h, this)") auto
  from Cons.prems(3) have nc: "\<not> creates c n" "\<not> defines_char c n k"
    and ncs: "\<forall>c \<in> set cs. \<not> creates c n \<and> \<not> defines_char c n k" by simp_all
  from do_call_variant [OF c nc(1) Cons.prems(4)] obtain v1 where
    v1: "variant this1 n = Some v1" "chars v1 = chars v"
    by blast
  from Cons.IH [OF cs do_call_wf [OF c Cons.prems(2)] ncs v1(1)] v1(2)
    do_call_own [OF c Cons.prems(2) nc Cons.prems(4)]
  show ?case by simp
qed

lemma chain_frame:
  "length h \<le> length h' \<Longrightarrow> \<forall>b < length h. proto (h' ! b) = proto (h ! b) \<Longrightarrow>
   a < length h \<Longrightarrow> chain h' a = chain h a"
proof (induction h a rule: chain.induct)
  case (1 h a)
  from "1.prems" have a: "a < length h" and a': "a < length h'"
    and pa: "proto (h' ! a) = proto (h ! a)" by simp_all
  show ?case
  proof (cases "proto (h ! a)")
    case None
    with a a' pa show ?thesis by (simp add: chain_in)
  next
    case (Some p)
    show ?thesis
    proof (cases "p < a")
      case True
      with a have "p < length h" by simp
      from "1.IH" [OF a Some True "1.prems"(1,2) this] have "chain h' p = chain h p" .
      with Some True a a' pa show ?thesis by (simp add: chain_in)
    next
      case False
      with Some a a' pa show ?thesis by (simp add: chain_in)
    qed
  qed
qed

lemma first_own_cong:
  "\<forall>x \<in> set as. own (h' ! x) n = own (h ! x) n \<Longrightarrow> first_own h' as n = first_own h as n"
  by (induction as) (simp_all split: option.splits)

lemma get_prop_frame:
  assumes "length h \<le> length h'" and "\<forall>b < length h. proto (h' ! b) = proto (h ! b)"
    and "a < length h" and "\<forall>x \<in> set (chain h a). own (h' ! x) n = own (h ! x) n"
  shows "get_prop h' a n = get_prop h a n"
  using assms(4) chain_frame [OF assms(1,2,3)]
  by (simp add: get_prop_first_own first_own_cong)

lemma get_prop_proto:
  "a < length h \<Longrightarrow> own (h ! a) n = None \<Longrightarrow> proto (h ! a) = Some p \<Longrightarrow> p < a \<Longrightarrow>
   get_prop h a n = get_prop h p n"
  by (subst get_prop.simps) simp

lemma get_prop_own:
  "a < length h \<Longrightarrow> own (h ! a) n = Some x \<Longrightarrow> get_prop h a n = Some x"
  by (subst get_prop.simps) simp

lemma getChar_Some: "variant this name = Some v \<Longrightarrow> getChar h this name n = Inr (get_prop h (chars v) n)"
  by (simp add: getChar_def)

subsection \<open>Inheritance\<close>

text \<open>
  C3. A variant \<open>V\<close> created with \<open>inherit\<close> a registered variant \<open>I\<close> (the
  claim's \<open>normal\<close>) and no link reads from \<open>I\<close> what its own table does not
  have. After the creation and any further calls that do not create \<open>V\<close> or \<open>I\<close>
  anew, for every \<open>n\<close> that is not in the own table of \<open>V\<close>: an entry \<open>x\<close>
  that the own table of \<open>I\<close> holds for \<open>n\<close> is what \<open>getChar(V, n)\<close> returns;
  so is the entry of the first table of the prototype chain of \<open>I\<close> that has
  \<open>n\<close>; and in every case \<open>getChar(V, n)\<close> returns what \<open>getChar(I, n)\<close>
  returns.
\<close>

theorem getChar_inherited:
  assumes wf: "wf_font h this"
    and I: "variant this I = Some vi" "I \<noteq> []"
    and cv: "createVariant h this V (Some I) None = Inr (h1, this1)"
    and cs: "do_calls cs (h1, this1) = Inr (h2, this2)"
    and keep: "\<forall>c \<in> set cs. \<not> creates c V \<and> \<not> creates c I"
    and own: "own_table h2 this2 V n = None"
  shows "(\<forall>x. own_table h2 this2 I n = Some x \<longrightarrow> getChar h2 this2 V n = Inr (Some x))
    \<and> (\<forall>i2 x. variant this2 I = Some i2 \<and> first_own h2 (chain h2 (chars i2)) n = Some x \<longrightarrow>
           getChar h2 this2 V n = Inr (Some x))
    \<and> getChar h2 this2 V n = getChar h2 this2 I n"
proof -
  have eq: "getChar h2 this2 V n = getChar h2 this2 I n"
  proof (cases "V = I")
    case True
    then show ?thesis by simp
  next
    case False
    from cv I have h1: "h1 = h @ [\<lparr>proto = Some (chars vi), own = Map.empty\<rparr>]"
      and this1: "this1 = this\<lparr>variant := (variant this)(V \<mapsto> \<lparr>linked = [], chars = length h\<rparr>)\<rparr>"
      by (cases rule: createVariant_cases; simp)+
    from this1 have V1: "variant this1 V = Some \<lparr>linked = [], chars = length h\<rparr>" by simp
    from this1 False I have I1: "variant this1 I = Some vi" by simp
    from keep have kV: "\<forall>c \<in> set cs. \<not> creates c V" and kI: "\<forall>c \<in> set cs. \<not> creates c I"
      by simp_all
    from do_calls_variant [OF cs kV V1] obtain v2 where
      v2: "variant this2 V = Some v2" "chars v2 = length h" by auto
    from do_calls_variant [OF cs kI I1] obtain i2 where
      i2: "variant this2 I = Some i2" "chars i2 = chars vi" by auto
    from h1 have len: "length h < length h1" and pr1: "proto (h1 ! length h) = Some (chars vi)"
      by simp_all
    from do_calls_heap [OF cs, of "length h"] len pr1
    have len2: "length h < length h2" and pr2: "proto (h2 ! length h) = Some (chars vi)"
      by simp_all
    from own v2 have "own (h2 ! length h) n = None" by (simp add: own_table_def)
    from get_prop_proto [OF len2 this pr2 wf_chars [OF wf I(1)]]
    show ?thesis using v2 i2 by (simp add: getChar_Some)
  qed
  have wf2: "wf_font h2 this2"
    by (rule do_calls_wf [OF cs wf_font_createVariant [OF cv wf]])
  have a: "getChar h2 this2 V n = Inr (Some x)" if x: "own_table h2 this2 I n = Some x" for x
  proof (cases "variant this2 I")
    case None
    with x show ?thesis by (simp add: own_table_def)
  next
    case (Some i2)
    with x have "own (h2 ! chars i2) n = Some x" by (simp add: own_table_def)
    from get_prop_own [OF wf_chars [OF wf2 Some] this] Some eq
    show ?thesis by (simp add: getChar_Some)
  qed
  have b: "getChar h2 this2 V n = Inr (Some x)"
    if "variant this2 I = Some i2 \<and> first_own h2 (chain h2 (chars i2)) n = Some x" for i2 x
    using that eq by (simp add: getChar_Some get_prop_first_own)
  from a b eq show ?thesis by blast
qed

subsection \<open>The constructor\<close>

lemma wf_font_empty: "variant this = Map.empty \<Longrightarrow> wf_font h this"
  by (simp add: wf_font_def)

lemma createVariants_wf:
  "createVariants h this vs = Inr (h', this') \<Longrightarrow> wf_font h this \<Longrightarrow> wf_font h' this'"
proof (induction vs arbitrary: h this)
  case Nil
  then show ?case by simp
next
  case (Cons v vs)
  from Cons.prems(1) obtain h1 this1 where
    c: "createVariant h this (key_of (nth_opt v 0)) (nth_opt v 1) (nth_opt v 2) = Inr (h1, this1)"
    and cs: "createVariants h1 this1 vs = Inr (h', this')"
    by (cases "createVariant h this (key_of (nth_opt v 0)) (nth_opt v 1) (nth_opt v 2)") auto
  from Cons.IH [OF cs wf_font_createVariant [OF c Cons.prems(2)]] show ?case .
qed

lemma defineAllChars_wf:
  "defineAllChars h this ds = Inr (h', this') \<Longrightarrow> wf_font h this \<Longrightarrow> wf_font h' this'"
proof (induction ds arbitrary: h this)
  case Nil
  then show ?case by simp
next
  case (Cons d ds)
  obtain name cs where d: "d = (name, cs)" by (cases d)
  from Cons.prems(1) d obtain h1 this1 where
    c: "defineChars h this name cs = Inr (h1, this1)"
    and r: "defineAllChars h1 this1 ds = Inr (h', this')"
    by (cases "defineChars h this name cs") auto
  from defineChars_summary [OF c] have "this1 = this" "length h1 = length h" by auto
  with Cons.prems(2) have "wf_font h1 this1" by (simp add: wf_font_length [of h1 h])
  from Cons.IH [OF r this] show ?case .
qed

lemma FontData_new_wf:
  assumes "FontData_new h C = Inr (h', this')"
  shows "wf_font h' this'"
proof -
  define this0 where "this0 = \<lparr>variant = Map.empty, delimiters = Map.empty,
                  sizeVariants = defaultSizeVariants C, params = defaultParams C\<rparr>"
  from assms obtain h1 this1 where
    c: "createVariants h this0 (defaultVariants C) = Inr (h1, this1)"
    and d: "defineAllChars h1 (defineDelimiters this1 (defaultDelimiters C)) (defaultChars C) = Inr (h', this')"
    unfolding FontData_new_def this0_def Let_def
    by (cases "createVariants h \<lparr>variant = Map.empty, delimiters = Map.empty,
                  sizeVariants = defaultSizeVariants C, params = defaultParams C\<rparr> (defaultVariants C)") auto
  have "wf_font h this0" by (rule wf_font_empty) (simp add: this0_def)
  from createVariants_wf [OF c this] have "wf_font h1 (defineDelimiters this1 (defaultDelimiters C))"
    by (simp add: wf_font_delimiters)
  from defineAllChars_wf [OF d this] show ?thesis .
qed

lemmas eval_defs = createVariant_def defineChars_def
  variant_get_def object_prototype_keys_def alloc_def assign_def nth_opt_def key_of_def
  defineDelimiters_def Let_def

lemma small_new: "FontData_new [] small_class = Inr (small_heap, small_font)"
  by (simp add: FontData_new_def small_class_def small_heap_def small_font_def eval_defs
      eval_nat_numeral)

lemma wf_small: "wf_font small_heap small_font"
  using FontData_new_wf [OF small_new] .

subsection \<open>The properties on the example font\<close>

theorem getChar_not_found_witness:
  "getChar small_heap small_font ''bold-italic'' 67 = Inr None
   \<and> getChar small_heap small_font ''script'' 65 = Inl TypeError"
  using getChar_not_found [of small_font "''bold-italic''" "\<lparr>linked = [], chars = 4\<rparr>" small_heap 67]
    getChar_not_found [of small_font "''script''" _ small_heap 65]
  by (simp add: small_heap_def small_font_def variant_get_def object_prototype_keys_def chain_in)

theorem defineChars_idempotent_witness:
  "\<exists>h1 this1 h2 this2.
     defineChars small_heap small_font ''bold'' [66 \<mapsto> CharData3 0.686 0 0.818] = Inr (h1, this1)
     \<and> defineChars h1 this1 ''bold'' [66 \<mapsto> CharData3 0.686 0 0.818] = Inr (h2, this2)
     \<and> h2 = h1 \<and> this2 = this1
     \<and> getChar h2 this2 ''bold-italic'' 66 = getChar h1 this1 ''bold-italic'' 66"
proof -
  have "\<exists>h1 this1. defineChars small_heap small_font ''bold'' [66 \<mapsto> CharData3 0.686 0 0.818]
          = Inr (h1, this1)"
    by (simp add: defineChars_def small_font_def variant_get_def)
  then obtain h1 this1 where
    d: "defineChars small_heap small_font ''bold'' [66 \<mapsto> CharData3 0.686 0 0.818] = Inr (h1, this1)"
    by blast
  from defineChars_idempotent [OF d] d show ?thesis by blast
qed

theorem getChar_inherited_witness:
  "\<exists>h1 this1 h2 this2.
     createVariant small_heap small_font ''script'' (Some ''normal'') None = Inr (h1, this1)
     \<and> do_calls [DefineChars ''script'' [66 \<mapsto> CharData3 0.705 0.022 0.657],
                 DefineChars ''normal'' [67 \<mapsto> CharData3 0.705 0.021 0.722]] (h1, this1)
         = Inr (h2, this2)
     \<and> own_table h2 this2 ''script'' 67 = None
     \<and> own_table h2 this2 ''normal'' 67 = Some (CharData3 0.705 0.021 0.722)
     \<and> getChar h2 this2 ''script'' 67 = Inr (Some (CharData3 0.705 0.021 0.722))
     \<and> own_table h2 this2 ''script'' 65 = None
     \<and> own_table h2 this2 ''normal'' 65 = Some (CharData3 0.683 0 0.75)
     \<and> getChar h2 this2 ''script'' 65 = Inr (Some (CharData3 0.683 0 0.75))
     \<and> getChar h2 this2 ''script'' 67 = getChar h2 this2 ''normal'' 67"
proof -
  let ?cs = "[DefineChars ''script'' [66 \<mapsto> CharData3 0.705 0.022 0.657],
              DefineChars ''normal'' [67 \<mapsto> CharData3 0.705 0.021 (0.722 :: real)]]
             :: unit call list"
  have "\<exists>h1 this1 h2 this2.
     createVariant small_heap small_font ''script'' (Some ''normal'') None = Inr (h1, this1)
     \<and> do_calls ?cs (h1, this1) = Inr (h2, this2)
     \<and> own_table h2 this2 ''script'' 67 = None
     \<and> own_table h2 this2 ''normal'' 67 = Some (CharData3 0.705 0.021 0.722)
     \<and> own_table h2 this2 ''script'' 65 = None
     \<and> own_table h2 this2 ''normal'' 65 = Some (CharData3 0.683 0 0.75)"
    by (simp add: small_heap_def small_font_def eval_defs own_table_def)
  then obtain h1 this1 h2 this2 where
    cv: "createVariant small_heap small_font ''script'' (Some ''normal'') None = Inr (h1, this1)"
    and cs: "do_calls ?cs (h1, this1) = Inr (h2, this2)"
    and ow: "own_table h2 this2 ''script'' 67 = None"
    and on: "own_table h2 this2 ''normal'' 67 = Some (CharData3 0.705 0.021 0.722)"
    and ow': "own_table h2 this2 ''script'' 65 = None"
    and on': "own_table h2 this2 ''normal'' 65 = Some (CharData3 0.683 0 0.75)"
    by blast
  have I: "variant small_font ''normal'' = Some \<lparr>linked = [], chars = 0\<rparr>" "''normal'' \<noteq> []"
    by (simp_all add: small_font_def)
  have keep: "\<forall>c \<in> set ?cs. \<not> creates c ''script'' \<and> \<not> creates c ''normal''"
    by simp
  note t67 = getChar_inherited [OF wf_small I cv cs keep ow]
  note t65 = getChar_inherited [OF wf_small I cv cs keep ow']
  note g67 = t67 [THEN conjunct1, THEN spec, THEN mp, OF on]
  note g65 = t65 [THEN conjunct1, THEN spec, THEN mp, OF on']
  note e67 = t67 [THEN conjunct2, THEN conjunct2]
  from cv cs ow on g67 ow' on' g65 e67 show ?thesis by blast
qed

subsection \<open>Names that are not registered\<close>

lemma getChar_None: "variant this name = None \<Longrightarrow> getChar h this name n = Inl TypeError"
  by (simp add: getChar_def variant_get_def)

lemma createVariant_linked:
  assumes wf: "wf_font h this" and L: "variant this L = Some vl" "L \<noteq> []"
    and cv: "createVariant h this V inherit (Some L) = Inr (h1, this1)"
  shows "\<exists>pr. ((pr = None \<and> (inherit = None \<or> inherit = Some []))
              \<or> (\<exists>i vi. inherit = Some i \<and> i \<noteq> [] \<and> variant this i = Some vi \<and> pr = Some (chars vi)))
           \<and> h1 = h @ [\<lparr>proto = pr, own = own (h ! chars vl)\<rparr>,
                        \<lparr>proto = Some (length h), own = Map.empty\<rparr>]
           \<and> this1 = this\<lparr>variant := (variant this)(L \<mapsto> vl\<lparr>linked := linked vl @ [length h]\<rparr>,
                                                V \<mapsto> \<lparr>linked = [], chars = Suc (length h)\<rparr>)\<rparr>"
  using cv
proof (cases rule: createVariant_cases)
  case (unlinked pr)
  with L show ?thesis by (auto simp: variant_get_def)
next
  case (linked pr l vl')
  with L have "l = L" "vl' = vl" by simp_all
  with linked wf_chars [OF wf L(1)] show ?thesis by (auto simp: nth_append)
qed

text \<open>
  C10, amended. When the table of variants holds nothing at all under the name given as
  \<open>link\<close>, \<open>createVariant\<close> does what it does without a link: the variant is
  created with its inherited chain only, a single new table with no own property, the
  \<open>linked\<close> arrays are left as they are, and no error is raised. When \<open>inherit\<close>
  is a non-empty name that is not registered, \<open>createVariant\<close> throws.
\<close>

theorem createVariant_unregistered:
  "(variant_get this l = Undefined \<longrightarrow>
      createVariant h this name inherit (Some l) = createVariant h this name inherit None)
   \<and> (variant_get this l = Undefined \<and> (inherit = None \<or> inherit = Some []) \<longrightarrow>
        createVariant h this name inherit (Some l) =
          Inr (h @ [\<lparr>proto = None, own = Map.empty\<rparr>],
               this\<lparr>variant := (variant this)(name \<mapsto> \<lparr>linked = [], chars = length h\<rparr>)\<rparr>))
   \<and> (variant_get this l = Undefined \<and> i \<noteq> [] \<and> variant this i = Some vi \<longrightarrow>
        createVariant h this name (Some i) (Some l) =
          Inr (h @ [\<lparr>proto = Some (chars vi), own = Map.empty\<rparr>],
               this\<lparr>variant := (variant this)(name \<mapsto> \<lparr>linked = [], chars = length h\<rparr>)\<rparr>))
   \<and> (i \<noteq> [] \<and> variant this i = None \<longrightarrow> createVariant h this name (Some i) link = Inl TypeError)"
proof (intro conjI impI)
  assume "variant_get this l = Undefined"
  then show "createVariant h this name inherit (Some l) = createVariant h this name inherit None"
    by (simp add: createVariant_def Let_def alloc_def split: sum.splits)
next
  assume "variant_get this l = Undefined \<and> (inherit = None \<or> inherit = Some [])"
  then show "createVariant h this name inherit (Some l) =
          Inr (h @ [\<lparr>proto = None, own = Map.empty\<rparr>],
               this\<lparr>variant := (variant this)(name \<mapsto> \<lparr>linked = [], chars = length h\<rparr>)\<rparr>)"
    by (auto simp: createVariant_def Let_def alloc_def)
next
  assume "variant_get this l = Undefined \<and> i \<noteq> [] \<and> variant this i = Some vi"
  then show "createVariant h this name (Some i) (Some l) =
          Inr (h @ [\<lparr>proto = Some (chars vi), own = Map.empty\<rparr>],
               this\<lparr>variant := (variant this)(name \<mapsto> \<lparr>linked = [], chars = length h\<rparr>)\<rparr>)"
    by (auto simp: createVariant_def Let_def alloc_def)
next
  assume "i \<noteq> [] \<and> variant this i = None"
  then show "createVariant h this name (Some i) link = Inl TypeError"
    by (auto simp: createVariant_def variant_get_def)
qed

text \<open>
  C10, as stated, fails at the empty string, which is not \<open>null\<close> and names no
  registered variant: as \<open>inherit\<close> it is falsy, and \<open>createVariant\<close> succeeds
  without a prototype. It also fails at a link named like a method of
  \<open>Object.prototype\<close>: \<open>this.variant['toString']\<close> is a function, the test
  \<open>link && this.variant[link]\<close> passes, and the \<open>push\<close> on its missing
  \<open>linked\<close> throws.
\<close>

theorem createVariant_unregistered_counterexample:
  "variant small_font [] = None
   \<and> createVariant small_heap small_font ''script'' (Some []) None =
       Inr (script_heap None, script_font)
   \<and> variant small_font ''toString'' = None
   \<and> createVariant small_heap small_font ''script'' None (Some ''toString'') = Inl TypeError"
  by (simp add: small_font_def small_heap_def script_heap_def script_font_def createVariant_def
      variant_get_def object_prototype_keys_def alloc_def)

theorem createVariant_unregistered_witness:
  "createVariant small_heap small_font ''script'' (Some ''normal'') (Some ''fraktur'') =
     Inr (script_heap (Some 0), script_font)
   \<and> createVariant small_heap small_font ''script'' None (Some ''fraktur'') =
       Inr (script_heap None, script_font)
   \<and> createVariant small_heap small_font ''script'' None (Some ''fraktur'') =
       createVariant small_heap small_font ''script'' None None
   \<and> createVariant small_heap small_font ''script'' (Some ''fraktur'') (Some ''bold'') = Inl TypeError"
proof -
  have u: "variant_get small_font ''fraktur'' = Undefined"
    by (simp add: small_font_def variant_get_def object_prototype_keys_def)
  have n: "variant small_font ''normal'' = Some \<lparr>linked = [], chars = 0\<rparr>"
    and f: "variant small_font ''fraktur'' = None"
    by (simp_all add: small_font_def)
  from createVariant_unregistered [of small_font "''fraktur''" small_heap "''script''" None
      "''normal''" "\<lparr>linked = [], chars = 0\<rparr>" "Some ''bold''"]
    createVariant_unregistered [of small_font "''fraktur''" small_heap "''script''" None
      "''fraktur''" "\<lparr>linked = [], chars = 0\<rparr>" "Some ''bold''"] u n f
  show ?thesis by (simp add: script_heap_def script_font_def)
qed

subsection \<open>Precedence\<close>

lemma get_prop_step:
  "a < length h \<Longrightarrow> proto (h ! a) = Some p \<Longrightarrow> p < a \<Longrightarrow>
   get_prop h a n = (case own (h ! a) n of Some x \<Rightarrow> Some x | None \<Rightarrow> get_prop h p n)"
  by (subst get_prop.simps) (simp split: option.splits)

lemma getChar_linked_created:
  assumes wf: "wf_font h this"
    and I: "variant this I = Some vi" "I \<noteq> []"
    and L: "variant this L = Some vl" "L \<noteq> []"
    and cv: "createVariant h this V (Some I) (Some L) = Inr (h1, this1)"
    and cs: "do_calls cs (h1, this1) = Inr (h2, this2)"
    and keep: "\<forall>c \<in> set cs. \<not> creates c V"
  shows "own (h1 ! length h) = own_table h this L"
    and "getChar h2 this2 V n =
           Inr (case own_table h2 this2 V n of
                  Some x \<Rightarrow> Some x
                | None \<Rightarrow> (case own (h2 ! length h) n of
                             Some x \<Rightarrow> Some x
                           | None \<Rightarrow> get_prop h2 (chars vi) n))"
proof -
  from createVariant_linked [OF wf L cv] I obtain pr where
    pr: "pr = Some (chars vi)"
    and h1: "h1 = h @ [\<lparr>proto = pr, own = own (h ! chars vl)\<rparr>,
                        \<lparr>proto = Some (length h), own = Map.empty\<rparr>]"
    and this1: "this1 = this\<lparr>variant := (variant this)(L \<mapsto> vl\<lparr>linked := linked vl @ [length h]\<rparr>,
                                                V \<mapsto> \<lparr>linked = [], chars = Suc (length h)\<rparr>)\<rparr>"
    by auto
  from h1 L show "own (h1 ! length h) = own_table h this L"
    by (simp add: own_table_def)
  from this1 have V1: "variant this1 V = Some \<lparr>linked = [], chars = Suc (length h)\<rparr>" by simp
  from do_calls_variant [OF cs keep V1] obtain v2 where
    v2: "variant this2 V = Some v2" "chars v2 = Suc (length h)" by auto
  from h1 pr have len1: "Suc (length h) < length h1" "length h < length h1"
    and p1: "proto (h1 ! Suc (length h)) = Some (length h)" "proto (h1 ! length h) = Some (chars vi)"
    by (simp_all add: nth_append)
  from do_calls_heap [OF cs, of "Suc (length h)"] do_calls_heap [OF cs, of "length h"] len1 p1
  have len2: "Suc (length h) < length h2" "length h < length h2"
    and p2: "proto (h2 ! Suc (length h)) = Some (length h)" "proto (h2 ! length h) = Some (chars vi)"
    by simp_all
  have "get_prop h2 (Suc (length h)) n =
          (case own (h2 ! Suc (length h)) n of Some x \<Rightarrow> Some x | None \<Rightarrow> get_prop h2 (length h) n)"
    by (rule get_prop_step [OF len2(1) p2(1)]) simp
  moreover have "get_prop h2 (length h) n =
          (case own (h2 ! length h) n of Some x \<Rightarrow> Some x | None \<Rightarrow> get_prop h2 (chars vi) n)"
    by (rule get_prop_step [OF len2(2) p2(2) wf_chars [OF wf I(1)]])
  ultimately show "getChar h2 this2 V n =
           Inr (case own_table h2 this2 V n of
                  Some x \<Rightarrow> Some x
                | None \<Rightarrow> (case own (h2 ! length h) n of
                             Some x \<Rightarrow> Some x
                           | None \<Rightarrow> get_prop h2 (chars vi) n))"
    using v2 by (simp add: getChar_Some own_table_def split: option.splits)
qed

lemma getChar_own_defined:
  assumes wf: "wf_font h this"
    and dc: "defineChars h this V E = Inr (h', this')" and E: "E n = Some X"
    and cs: "do_calls cs (h', this') = Inr (h'', this'')"
    and keep: "\<forall>c \<in> set cs. \<not> creates c V \<and> \<not> defines_char c V n"
  shows "getChar h'' this'' V n = Inr (Some X)"
proof -
  from defineChars_summary [OF dc] obtain v where v: "variant this V = Some v"
    and this': "this' = this" and len: "length h' = length h"
    and ow: "\<And>b. own (h' ! b) =
                 (if (b = chars v \<or> b \<in> set (linked v)) \<and> b < length h
                  then own (h ! b) ++ E else own (h ! b))"
    by blast
  from wf_chars [OF wf v] have cv: "chars v < length h" .
  with ow [of "chars v"] E have o1: "own (h' ! chars v) n = Some X" by simp
  from wf len this' have wf': "wf_font h' this'" by (simp add: wf_font_length [of h' h])
  from v this' have v': "variant this' V = Some v" by simp
  from do_calls_own [OF cs wf' keep v'] o1 have o2: "own (h'' ! chars v) n = Some X" by simp
  from keep have "\<forall>c \<in> set cs. \<not> creates c V" by simp
  from do_calls_variant [OF cs this v'] obtain v2 where
    v2: "variant this'' V = Some v2" "chars v2 = chars v" by auto
  from do_calls_heap [OF cs, of 0] cv len have "chars v < length h''" by simp
  from get_prop_own [OF this o2] v2 show ?thesis by (simp add: getChar_Some)
qed

text \<open>
  C2. \<open>getChar\<close> returns the entry of the first object of the prototype chain that
  has the number, so a nearer table wins over a farther one. For a variant created with
  an inherited and a linked variant, the chain is its own table, then the copy of the
  linked variant's table (at the address \<open>length h\<close>, made from the own table of the
  link), then the chain of the inherited variant's table, and it stays so under later
  calls that do not create the variant anew. And once \<open>defineChars(V, E)\<close> has given
  \<open>V\<close> an entry for \<open>n\<close>, \<open>getChar(V, n)\<close> returns it whatever the chain holds
  and whatever is defined later elsewhere, until \<open>V\<close> is created anew or \<open>n\<close> is
  defined in \<open>V\<close> again.
\<close>

theorem getChar_precedence:
  "(variant this V = Some v \<longrightarrow> getChar h this V n = Inr (first_own h (chain h (chars v)) n))
   \<and> (wf_font h this \<and> variant this I = Some vi \<and> I \<noteq> [] \<and> variant this L = Some vl \<and> L \<noteq> []
        \<and> createVariant h this V (Some I) (Some L) = Inr (h1, this1)
        \<and> do_calls cs (h1, this1) = Inr (h2, this2) \<and> (\<forall>c \<in> set cs. \<not> creates c V) \<longrightarrow>
      own (h1 ! length h) = own_table h this L
      \<and> getChar h2 this2 V n =
           Inr (case own_table h2 this2 V n of
                  Some x \<Rightarrow> Some x
                | None \<Rightarrow> (case own (h2 ! length h) n of
                             Some x \<Rightarrow> Some x
                           | None \<Rightarrow> get_prop h2 (chars vi) n)))
   \<and> (wf_font h this \<and> defineChars h this V E = Inr (h', this') \<and> E n = Some X
        \<and> do_calls cs' (h', this') = Inr (h'', this'')
        \<and> (\<forall>c \<in> set cs'. \<not> creates c V \<and> \<not> defines_char c V n) \<longrightarrow>
      getChar h'' this'' V n = Inr (Some X))"
proof (intro conjI impI)
  assume "variant this V = Some v"
  then show "getChar h this V n = Inr (first_own h (chain h (chars v)) n)"
    by (simp add: getChar_Some get_prop_first_own)
next
  assume a: "wf_font h this \<and> variant this I = Some vi \<and> I \<noteq> [] \<and> variant this L = Some vl \<and> L \<noteq> []
        \<and> createVariant h this V (Some I) (Some L) = Inr (h1, this1)
        \<and> do_calls cs (h1, this1) = Inr (h2, this2) \<and> (\<forall>c \<in> set cs. \<not> creates c V)"
  then show "own (h1 ! length h) = own_table h this L"
    using getChar_linked_created(1) [of h this I vi L vl V h1 this1 cs h2 this2] by blast
  from a show "getChar h2 this2 V n =
           Inr (case own_table h2 this2 V n of
                  Some x \<Rightarrow> Some x
                | None \<Rightarrow> (case own (h2 ! length h) n of
                             Some x \<Rightarrow> Some x
                           | None \<Rightarrow> get_prop h2 (chars vi) n))"
    using getChar_linked_created(2) [of h this I vi L vl V h1 this1 cs h2 this2 n] by blast
next
  assume "wf_font h this \<and> defineChars h this V E = Inr (h', this') \<and> E n = Some X
        \<and> do_calls cs' (h', this') = Inr (h'', this'')
        \<and> (\<forall>c \<in> set cs'. \<not> creates c V \<and> \<not> defines_char c V n)"
  then show "getChar h'' this'' V n = Inr (Some X)"
    using getChar_own_defined [of h this V E h' this' n X cs' h'' this''] by blast
qed

theorem getChar_precedence_witness:
  "\<exists>h1 this1 h2 this2 h3 this3 h4 this4.
     createVariant small_heap small_font ''bold-slanted'' (Some ''italic'') (Some ''bold'') = Inr (h1, this1)
     \<and> do_calls [DefineChars ''bold'' [70 \<mapsto> CharData3 0.68 0 0.724],
                 DefineChars ''italic'' [70 \<mapsto> CharData3 0.68 0 0.643, 71 \<mapsto> CharData3 0.705 0.022 0.786]]
          (h1, this1) = Inr (h2, this2)
     \<and> getChar h2 this2 ''bold-slanted'' 70 = Inr (Some (CharData3 0.68 0 0.724))
     \<and> getChar h2 this2 ''bold-slanted'' 71 = Inr (Some (CharData3 0.705 0.022 0.786))
     \<and> defineChars h2 this2 ''bold-slanted'' [70 \<mapsto> CharData3 0.7 0 0.7] = Inr (h3, this3)
     \<and> do_calls [DefineChars ''bold'' [70 \<mapsto> CharData3 0.69 0 0.73]] (h3, this3) = Inr (h4, this4)
     \<and> getChar h4 this4 ''bold-slanted'' 70 = Inr (Some (CharData3 0.7 0 0.7))
     \<and> getChar small_heap small_font ''bold-italic'' 66 = Inr (Some (CharData3 0.683 0 0.708))"
proof -
  let ?cs = "[DefineChars ''bold'' [70 \<mapsto> CharData3 0.68 0 0.724],
              DefineChars ''italic'' [70 \<mapsto> CharData3 0.68 0 0.643, 71 \<mapsto> CharData3 0.705 0.022 (0.786 :: real)]]
             :: unit call list"
  let ?cs' = "[DefineChars ''bold'' [70 \<mapsto> CharData3 0.69 0 (0.73 :: real)]] :: unit call list"
  have "\<exists>h1 this1 h2 this2 h3 this3 h4 this4.
     createVariant small_heap small_font ''bold-slanted'' (Some ''italic'') (Some ''bold'') = Inr (h1, this1)
     \<and> do_calls ?cs (h1, this1) = Inr (h2, this2)
     \<and> own_table h2 this2 ''bold-slanted'' 70 = None
     \<and> own (h2 ! length small_heap) 70 = Some (CharData3 0.68 0 0.724)
     \<and> own_table h2 this2 ''bold-slanted'' 71 = None
     \<and> own (h2 ! length small_heap) 71 = None
     \<and> get_prop h2 2 71 = Some (CharData3 0.705 0.022 0.786)
     \<and> defineChars h2 this2 ''bold-slanted'' [70 \<mapsto> CharData3 0.7 0 0.7] = Inr (h3, this3)
     \<and> do_calls ?cs' (h3, this3) = Inr (h4, this4)"
    by (simp add: small_heap_def small_font_def eval_defs own_table_def get_prop.simps)
  then obtain h1 this1 h2 this2 h3 this3 h4 this4 where
    cv: "createVariant small_heap small_font ''bold-slanted'' (Some ''italic'') (Some ''bold'') = Inr (h1, this1)"
    and cs: "do_calls ?cs (h1, this1) = Inr (h2, this2)"
    and o70: "own_table h2 this2 ''bold-slanted'' 70 = None"
      "own (h2 ! length small_heap) 70 = Some (CharData3 0.68 0 0.724)"
    and o71: "own_table h2 this2 ''bold-slanted'' 71 = None"
      "own (h2 ! length small_heap) 71 = None"
      "get_prop h2 2 71 = Some (CharData3 0.705 0.022 0.786)"
    and dc: "defineChars h2 this2 ''bold-slanted'' [70 \<mapsto> CharData3 0.7 0 0.7] = Inr (h3, this3)"
    and cs': "do_calls ?cs' (h3, this3) = Inr (h4, this4)"
    by blast
  have I: "variant small_font ''italic'' = Some \<lparr>linked = [], chars = 2\<rparr>" "''italic'' \<noteq> []"
    and L: "variant small_font ''bold'' = Some \<lparr>linked = [3], chars = 1\<rparr>" "''bold'' \<noteq> []"
    and B: "variant small_font ''bold-italic'' = Some \<lparr>linked = [], chars = 4\<rparr>"
    by (simp_all add: small_font_def)
  have keep: "\<forall>c \<in> set ?cs. \<not> creates c ''bold-slanted''"
    and keep': "\<forall>c \<in> set ?cs'. \<not> creates c ''bold-slanted'' \<and> \<not> defines_char c ''bold-slanted'' 70"
    by simp_all
  have wf2: "wf_font h2 this2"
    by (rule do_calls_wf [OF cs wf_font_createVariant [OF cv wf_small]])
  have ch: "first_own small_heap (chain small_heap 4) 66 = Some (CharData3 0.683 0 0.708)"
    by (simp add: small_heap_def chain_in)
  from getChar_precedence [where this = small_font and V = "''bold-italic''"
      and v = "\<lparr>linked = [], chars = 4\<rparr>" and n = 66 and h = small_heap]
    B ch
  have g0: "getChar small_heap small_font ''bold-italic'' 66 = Inr (Some (CharData3 0.683 0 0.708))"
    by simp
  from getChar_precedence [where this = small_font and V = "''bold-slanted''" and n = 70
      and h = small_heap and I = "''italic''" and vi = "\<lparr>linked = [], chars = 2\<rparr>"
      and L = "''bold''" and vl = "\<lparr>linked = [3], chars = 1\<rparr>" and ?h1.0 = h1
      and ?this1.0 = this1 and cs = ?cs and ?h2.0 = h2 and ?this2.0 = this2]
    wf_small I L cv cs keep o70
  have g1: "getChar h2 this2 ''bold-slanted'' 70 = Inr (Some (CharData3 0.68 0 0.724))"
    by simp
  from getChar_precedence [where this = small_font and V = "''bold-slanted''" and n = 71
      and h = small_heap and I = "''italic''" and vi = "\<lparr>linked = [], chars = 2\<rparr>"
      and L = "''bold''" and vl = "\<lparr>linked = [3], chars = 1\<rparr>" and ?h1.0 = h1
      and ?this1.0 = this1 and cs = ?cs and ?h2.0 = h2 and ?this2.0 = this2]
    wf_small I L cv cs keep o71
  have g2: "getChar h2 this2 ''bold-slanted'' 71 = Inr (Some (CharData3 0.705 0.022 0.786))"
    by simp
  from getChar_precedence [where this = this2 and V = "''bold-slanted''" and n = 70 and h = h2
      and E = "[70 \<mapsto> CharData3 0.7 0 0.7]" and h' = h3 and this' = this3
      and X = "CharData3 0.7 0 0.7" and cs' = ?cs' and h'' = h4 and this'' = this4]
    wf2 dc cs' keep'
  have g3: "getChar h4 this4 ''bold-slanted'' 70 = Inr (Some (CharData3 0.7 0 0.7))"
    by simp
  from cv cs dc cs' g0 g1 g2 g3 show ?thesis by blast
qed

subsection \<open>Links\<close>

lemma link_snapshot_visible:
  assumes wf: "wf_font h this" and L: "variant this L = Some vl" "L \<noteq> []"
    and cv: "createVariant h this V inherit (Some L) = Inr (h1, this1)"
    and x: "own_table h this L n = Some x"
  shows "getChar h1 this1 V n = Inr (Some x)"
proof -
  from createVariant_linked [OF wf L cv] obtain pr where
    h1: "h1 = h @ [\<lparr>proto = pr, own = own (h ! chars vl)\<rparr>,
                        \<lparr>proto = Some (length h), own = Map.empty\<rparr>]"
    and this1: "this1 = this\<lparr>variant := (variant this)(L \<mapsto> vl\<lparr>linked := linked vl @ [length h]\<rparr>,
                                                V \<mapsto> \<lparr>linked = [], chars = Suc (length h)\<rparr>)\<rparr>"
    by auto
  from h1 have top: "Suc (length h) < length h1" "proto (h1 ! Suc (length h)) = Some (length h)"
    "own (h1 ! Suc (length h)) n = None"
    and base: "length h < length h1" "own (h1 ! length h) n = own (h ! chars vl) n"
    by (simp_all add: nth_append)
  from x L have "own (h ! chars vl) n = Some x" by (simp add: own_table_def)
  with base have "get_prop h1 (length h) n = Some x" by (simp add: get_prop_own)
  moreover have "get_prop h1 (Suc (length h)) n = get_prop h1 (length h) n"
    by (rule get_prop_proto [OF top(1) top(3) top(2)]) simp
  moreover from this1 have "variant this1 V = Some \<lparr>linked = [], chars = Suc (length h)\<rparr>" by simp
  ultimately show ?thesis by (simp add: getChar_Some)
qed

lemma createVariant_frame:
  assumes wf: "wf_font h this"
    and cv: "createVariant h this V inherit link = Inr (h1, this1)"
    and W: "W \<noteq> V"
  shows "getChar h1 this1 W n = getChar h this W n"
proof (cases "variant this W")
  case None
  from createVariant_summary [OF cv] W have
    "variant this1 W = variant this W \<or> (\<exists>v. variant this W = Some v)" by blast
  with None have "variant this1 W = None" by auto
  with None show ?thesis by (simp add: getChar_None)
next
  case (Some w)
  from createVariant_keeps [OF cv W Some] obtain w' where
    w': "variant this1 W = Some w'" "chars w' = chars w" by blast
  from createVariant_old [OF cv]
  have "length h \<le> length h1" and "\<forall>b < length h. proto (h1 ! b) = proto (h ! b)"
    and "\<forall>x \<in> set (chain h (chars w)). own (h1 ! x) n = own (h ! x) n"
    using chain_le [of _ h "chars w"] by auto
  from get_prop_frame [OF this(1,2) wf_chars [OF wf Some] this(3)] Some w'
  show ?thesis by (simp add: getChar_Some)
qed

lemma defineChars_frame:
  assumes dc: "defineChars h this L E = Inr (h', this')"
    and L: "variant this L = Some l" and W: "variant this W = Some w" "chars w < length h"
    and away: "\<forall>a \<in> set (chain h (chars w)). a \<noteq> chars l \<and> a \<notin> set (linked l)"
  shows "getChar h' this' W n = getChar h this W n"
proof -
  from defineChars_summary [OF dc] L have this': "this' = this" and len: "length h' = length h"
    and pr: "\<forall>b. proto (h' ! b) = proto (h ! b)"
    and same: "\<forall>b. b \<noteq> chars l \<longrightarrow> b \<notin> set (linked l) \<longrightarrow> h' ! b = h ! b"
    by auto
  from away same have "\<forall>x \<in> set (chain h (chars w)). own (h' ! x) n = own (h ! x) n" by simp
  from get_prop_frame [where h' = h', OF _ _ W(2) this] len pr W(1) this'
  show ?thesis by (simp add: getChar_Some)
qed

lemma link_propagates:
  assumes wf: "wf_font h this" and L: "variant this L = Some vl" "L \<noteq> []"
    and cv: "createVariant h this V inherit (Some L) = Inr (h1, this1)"
    and cs: "do_calls cs (h1, this1) = Inr (h2, this2)"
    and keep: "\<forall>c \<in> set cs. \<not> creates c V \<and> \<not> creates c L"
    and dc: "defineChars h2 this2 L E = Inr (h3, this3)" and E: "E n = Some x"
  shows "\<exists>y. getChar h3 this3 V n = Inr (Some y)"
    and "own_table h2 this2 V n = None \<Longrightarrow> getChar h3 this3 V n = Inr (Some x)"
proof -
  from createVariant_linked [OF wf L cv] obtain pr where
    h1: "h1 = h @ [\<lparr>proto = pr, own = own (h ! chars vl)\<rparr>,
                        \<lparr>proto = Some (length h), own = Map.empty\<rparr>]"
    and this1: "this1 = this\<lparr>variant := (variant this)(L \<mapsto> vl\<lparr>linked := linked vl @ [length h]\<rparr>,
                                                V \<mapsto> \<lparr>linked = [], chars = Suc (length h)\<rparr>)\<rparr>"
    by auto
  from keep have kV: "\<forall>c \<in> set cs. \<not> creates c V" and kL: "\<forall>c \<in> set cs. \<not> creates c L"
    by simp_all
  from this1 have V1: "variant this1 V = Some \<lparr>linked = [], chars = Suc (length h)\<rparr>" by simp
  from do_calls_variant [OF cs kV V1] obtain v2 where
    v2: "variant this2 V = Some v2" "chars v2 = Suc (length h)" by auto
  from h1 have len1: "Suc (length h) < length h1"
    and p1: "proto (h1 ! Suc (length h)) = Some (length h)"
    by (simp_all add: nth_append)
  from do_calls_heap [OF cs, of "Suc (length h)"] len1 p1
  have len2: "Suc (length h) < length h2" and p2: "proto (h2 ! Suc (length h)) = Some (length h)"
    by simp_all
  have wf2: "wf_font h2 this2"
    by (rule do_calls_wf [OF cs wf_font_createVariant [OF cv wf]])
  from defineChars_summary [OF dc] obtain l2 where l2: "variant this2 L = Some l2"
    and this3: "this3 = this2" and len3: "length h3 = length h2"
    and pr3: "\<And>b. proto (h3 ! b) = proto (h2 ! b)"
    and ow: "\<And>b. own (h3 ! b) =
                 (if (b = chars l2 \<or> b \<in> set (linked l2)) \<and> b < length h2
                  then own (h2 ! b) ++ E else own (h2 ! b))"
    by blast
  from v2 this3 have v3: "variant this3 V = Some v2" by simp
  have "(\<exists>y. get_prop h3 (Suc (length h)) n = Some y)
        \<and> (own (h2 ! Suc (length h)) n = None \<longrightarrow> get_prop h3 (Suc (length h)) n = Some x)"
  proof (cases "V = L")
    case True
    with l2 v2 have "chars l2 = Suc (length h)" by simp
    with ow [of "Suc (length h)"] len2 E have "own (h3 ! Suc (length h)) n = Some x" by simp
    with len2 len3 show ?thesis by (simp add: get_prop_own)
  next
    case False
    with this1 have "variant this1 L = Some (vl\<lparr>linked := linked vl @ [length h]\<rparr>)" by simp
    from do_calls_variant [OF cs kL this] l2 have base: "length h \<in> set (linked l2)" by auto
    from wf_inj [OF wf2 l2 v2(1)] False v2(2) have "Suc (length h) \<noteq> chars l2" by auto
    moreover from wf_top_not_linked [OF wf2 l2 v2(1)] v2(2) have "Suc (length h) \<notin> set (linked l2)"
      by simp
    ultimately have top: "own (h3 ! Suc (length h)) n = own (h2 ! Suc (length h)) n"
      by (simp add: ow)
    from base len2 E have "own (h3 ! length h) n = Some x" by (simp add: ow)
    with len2 len3 have b: "get_prop h3 (length h) n = Some x" by (simp add: get_prop_own)
    have "get_prop h3 (Suc (length h)) n =
            (case own (h3 ! Suc (length h)) n of Some y \<Rightarrow> Some y | None \<Rightarrow> get_prop h3 (length h) n)"
      by (rule get_prop_step) (simp_all add: len2 len3 pr3 p2)
    with top b show ?thesis by (simp split: option.splits)
  qed
  with v3 v2 show "\<exists>y. getChar h3 this3 V n = Inr (Some y)"
    and "own_table h2 this2 V n = None \<Longrightarrow> getChar h3 this3 V n = Inr (Some x)"
    by (simp_all add: getChar_Some own_table_def)
qed

text \<open>
  C1. Let \<open>V\<close> be created by \<open>createVariant(V, inherit, L)\<close> with \<open>L\<close> a
  registered variant. Right after the creation, every entry of the own table of \<open>L\<close>
  is what \<open>getChar(V, n)\<close> returns, and \<open>getChar\<close> returns for every other
  variant, \<open>L\<close> among them, what it returned before. After any further calls that do
  not create \<open>V\<close> or \<open>L\<close> anew, a \<open>defineChars(L, E)\<close> makes every number of
  \<open>E\<close> visible in \<open>V\<close>: \<open>getChar(V, n)\<close> returns an entry, and it is the
  entry of \<open>E\<close> unless the own table of \<open>V\<close> had one for \<open>n\<close>. The same call
  changes nothing for a variant whose prototype chain holds neither the table of \<open>L\<close>
  nor a copy in its \<open>linked\<close> array.
\<close>

theorem link_visible:
  assumes wf: "wf_font h this" and L: "variant this L = Some vl" "L \<noteq> []"
    and cv: "createVariant h this V inherit (Some L) = Inr (h1, this1)"
  shows "(\<forall>n x. own_table h this L n = Some x \<longrightarrow> getChar h1 this1 V n = Inr (Some x))
    \<and> (\<forall>W n. W \<noteq> V \<longrightarrow> getChar h1 this1 W n = getChar h this W n)
    \<and> (\<forall>cs h2 this2 E h3 this3.
          do_calls cs (h1, this1) = Inr (h2, this2)
          \<and> (\<forall>c \<in> set cs. \<not> creates c V \<and> \<not> creates c L)
          \<and> defineChars h2 this2 L E = Inr (h3, this3) \<longrightarrow>
          (\<forall>n x. E n = Some x \<longrightarrow>
             (\<exists>y. getChar h3 this3 V n = Inr (Some y))
             \<and> (own_table h2 this2 V n = None \<longrightarrow> getChar h3 this3 V n = Inr (Some x)))
          \<and> (\<forall>W w l2 k. variant this2 W = Some w \<and> variant this2 L = Some l2
                \<and> (\<forall>a \<in> set (chain h2 (chars w)). a \<noteq> chars l2 \<and> a \<notin> set (linked l2)) \<longrightarrow>
                getChar h3 this3 W k = getChar h2 this2 W k))"
proof (intro conjI allI impI)
  fix n x assume "own_table h this L n = Some x"
  from link_snapshot_visible [OF wf L cv this] show "getChar h1 this1 V n = Inr (Some x)" .
next
  fix W n assume "W \<noteq> V"
  from createVariant_frame [OF wf cv this] show "getChar h1 this1 W n = getChar h this W n" .
next
  fix cs h2 this2 E h3 this3 n x
  assume a: "do_calls cs (h1, this1) = Inr (h2, this2)
          \<and> (\<forall>c \<in> set cs. \<not> creates c V \<and> \<not> creates c L)
          \<and> defineChars h2 this2 L E = Inr (h3, this3)"
    and E: "E n = Some x"
  from a have cs: "do_calls cs (h1, this1) = Inr (h2, this2)"
    and keep: "\<forall>c \<in> set cs. \<not> creates c V \<and> \<not> creates c L"
    and dc: "defineChars h2 this2 L E = Inr (h3, this3)" by simp_all
  from link_propagates(1) [OF wf L cv cs keep dc E]
  show "\<exists>y. getChar h3 this3 V n = Inr (Some y)" .
  assume "own_table h2 this2 V n = None"
  from link_propagates(2) [OF wf L cv cs keep dc E this]
  show "getChar h3 this3 V n = Inr (Some x)" .
next
  fix cs h2 this2 E h3 this3 W w l2 k
  assume a: "do_calls cs (h1, this1) = Inr (h2, this2)
          \<and> (\<forall>c \<in> set cs. \<not> creates c V \<and> \<not> creates c L)
          \<and> defineChars h2 this2 L E = Inr (h3, this3)"
    and b: "variant this2 W = Some w \<and> variant this2 L = Some l2
                \<and> (\<forall>a \<in> set (chain h2 (chars w)). a \<noteq> chars l2 \<and> a \<notin> set (linked l2))"
  from a have cs: "do_calls cs (h1, this1) = Inr (h2, this2)"
    and dc: "defineChars h2 this2 L E = Inr (h3, this3)" by simp_all
  from b have W: "variant this2 W = Some w" and l2: "variant this2 L = Some l2"
    and away: "\<forall>a \<in> set (chain h2 (chars w)). a \<noteq> chars l2 \<and> a \<notin> set (linked l2)" by simp_all
  have "wf_font h2 this2"
    by (rule do_calls_wf [OF cs wf_font_createVariant [OF cv wf]])
  from defineChars_frame [OF dc l2 W wf_chars [OF this W] away]
  show "getChar h3 this3 W k = getChar h2 this2 W k" .
qed

theorem link_visible_witness:
  "\<exists>h1 this1 h2 this2 h3 this3.
     createVariant small_heap small_font ''bold-slanted'' (Some ''italic'') (Some ''bold'') = Inr (h1, this1)
     \<and> do_calls [DefineChars ''italic'' [70 \<mapsto> CharData3 0.68 0 0.643]] (h1, this1) = Inr (h2, this2)
     \<and> defineChars h2 this2 ''bold'' [70 \<mapsto> CharData3 0.68 0 0.724] = Inr (h3, this3)
     \<and> getChar h1 this1 ''bold-slanted'' 65 = Inr (Some (CharData3 0.698 0 0.869))
     \<and> getChar h1 this1 ''bold'' 65 = getChar small_heap small_font ''bold'' 65
     \<and> getChar h3 this3 ''bold-slanted'' 70 = Inr (Some (CharData3 0.68 0 0.724))
     \<and> getChar h3 this3 ''italic'' 70 = getChar h2 this2 ''italic'' 70"
proof -
  let ?cs = "[DefineChars ''italic'' [70 \<mapsto> CharData3 0.68 0 (0.643 :: real)]] :: unit call list"
  let ?E = "[70 \<mapsto> CharData3 0.68 0 (0.724 :: real)] :: unit CharMap"
  have "\<exists>h1 this1 h2 this2 h3 this3.
     createVariant small_heap small_font ''bold-slanted'' (Some ''italic'') (Some ''bold'') = Inr (h1, this1)
     \<and> do_calls ?cs (h1, this1) = Inr (h2, this2)
     \<and> defineChars h2 this2 ''bold'' ?E = Inr (h3, this3)
     \<and> own_table h2 this2 ''bold-slanted'' 70 = None
     \<and> variant this2 ''italic'' = Some \<lparr>linked = [], chars = 2\<rparr>
     \<and> variant this2 ''bold'' = Some \<lparr>linked = [3, length small_heap], chars = 1\<rparr>
     \<and> chain h2 2 = [2, 0]"
    by (simp add: small_heap_def small_font_def eval_defs own_table_def chain_in)
  then obtain h1 this1 h2 this2 h3 this3 where
    cv: "createVariant small_heap small_font ''bold-slanted'' (Some ''italic'') (Some ''bold'') = Inr (h1, this1)"
    and cs: "do_calls ?cs (h1, this1) = Inr (h2, this2)"
    and dc: "defineChars h2 this2 ''bold'' ?E = Inr (h3, this3)"
    and o: "own_table h2 this2 ''bold-slanted'' 70 = None"
    and i2: "variant this2 ''italic'' = Some \<lparr>linked = [], chars = 2\<rparr>"
    and b2: "variant this2 ''bold'' = Some \<lparr>linked = [3, length small_heap], chars = 1\<rparr>"
    and ch: "chain h2 2 = [2, 0]"
    by blast
  have L: "variant small_font ''bold'' = Some \<lparr>linked = [3], chars = 1\<rparr>" "''bold'' \<noteq> []"
    and o65: "own_table small_heap small_font ''bold'' 65 = Some (CharData3 0.698 0 0.869)"
    by (simp_all add: small_font_def small_heap_def own_table_def)
  have keep: "\<forall>c \<in> set ?cs. \<not> creates c ''bold-slanted'' \<and> \<not> creates c ''bold''"
    by simp
  have away: "\<forall>a \<in> set (chain h2 (chars \<lparr>linked = [], chars = 2\<rparr>)).
      a \<noteq> chars \<lparr>linked = [3, length small_heap], chars = 1\<rparr>
      \<and> a \<notin> set (linked \<lparr>linked = [3, length small_heap], chars = 1\<rparr>)"
    by (simp add: ch small_heap_def)
  note t = link_visible [OF wf_small L cv]
  note t1 = t [THEN conjunct1, THEN spec, THEN spec, THEN mp, OF o65]
  note t2 = t [THEN conjunct2, THEN conjunct1, THEN spec, THEN spec, THEN mp]
  note t3 = t [THEN conjunct2, THEN conjunct2, THEN spec, THEN spec, THEN spec, THEN spec,
      THEN spec, THEN spec, THEN mp, OF conjI [OF cs conjI [OF keep dc]]]
  note t4 = t3 [THEN conjunct1, THEN spec, THEN spec, THEN mp, THEN conjunct2, THEN mp, OF _ o]
  note t5 = t3 [THEN conjunct2, THEN spec, THEN spec, THEN spec, THEN spec, THEN mp,
      OF conjI [OF i2 conjI [OF b2 away]]]
  from t1 have g1: "getChar h1 this1 ''bold-slanted'' 65 = Inr (Some (CharData3 0.698 0 0.869))" .
  have g2: "getChar h1 this1 ''bold'' 65 = getChar small_heap small_font ''bold'' 65"
    by (rule t2) simp
  have g3: "getChar h3 this3 ''bold-slanted'' 70 = Inr (Some (CharData3 0.68 0 0.724))"
    by (rule t4) simp
  from t5 have g4: "getChar h3 this3 ''italic'' 70 = getChar h2 this2 ''italic'' 70" .
  from cv cs dc g1 g2 g3 g4 show ?thesis by blast
qed

subsection \<open>Two instances in one store\<close>

lemma font_addrsI:
  "variant this n = Some v \<Longrightarrow> a = chars v \<or> a \<in> set (linked v) \<Longrightarrow> a \<in> font_addrs this"
  unfolding font_addrs_def by blast

lemma createVariant_addrs:
  assumes cv: "createVariant h this name inherit link = Inr (h', this')"
    and a: "a \<in> font_addrs this'"
  shows "a \<in> font_addrs this \<or> (length h \<le> a \<and> a < length h')"
proof -
  from createVariant_summary [OF cv] obtain t where
    t: "length h \<le> t" "t < length h'"
    and new: "variant this' name = Some \<lparr>linked = [], chars = t\<rparr>"
    and old: "\<And>n. n \<noteq> name \<Longrightarrow> variant this' n = variant this n
                 \<or> (\<exists>v. variant this n = Some v \<and> t = Suc (length h)
                        \<and> variant this' n = Some (v\<lparr>linked := linked v @ [length h]\<rparr>))"
    by blast
  from a obtain n v where nv: "variant this' n = Some v" "a = chars v \<or> a \<in> set (linked v)"
    unfolding font_addrs_def by blast
  show ?thesis
  proof (cases "n = name")
    case True
    with nv new t show ?thesis by auto
  next
    case False
    from old [OF False] show ?thesis
    proof
      assume "variant this' n = variant this n"
      with nv have "variant this n = Some v" by simp
      from font_addrsI [OF this nv(2)] show ?thesis ..
    next
      assume "\<exists>v. variant this n = Some v \<and> t = Suc (length h)
                        \<and> variant this' n = Some (v\<lparr>linked := linked v @ [length h]\<rparr>)"
      then obtain v0 where v0: "variant this n = Some v0" "t = Suc (length h)"
        "variant this' n = Some (v0\<lparr>linked := linked v0 @ [length h]\<rparr>)" by blast
      with nv have "a = chars v0 \<or> a \<in> set (linked v0) \<or> a = length h" by auto
      with font_addrsI [OF v0(1), of a] t v0(2) show ?thesis by auto
    qed
  qed
qed

lemma defineChars_writes:
  assumes dc: "defineChars h this name cs = Inr (h', this')" and b: "b \<notin> font_addrs this"
  shows "h' ! b = h ! b"
proof -
  from defineChars_summary [OF dc] obtain v where v: "variant this name = Some v"
    and same: "\<forall>b. b \<noteq> chars v \<longrightarrow> b \<notin> set (linked v) \<longrightarrow> h' ! b = h ! b"
    by blast
  from b font_addrsI [OF v, of b] have "b \<noteq> chars v" "b \<notin> set (linked v)" by auto
  with same show ?thesis by simp
qed

text \<open>A call on a font leaves alone the objects that the font does not hold.\<close>

lemma do_call_isolated:
  assumes c: "do_call c (h, X) = Inr (h', X')"
    and S: "\<forall>a \<in> S. a < length h" "font_addrs X \<inter> S = {}"
  shows "font_addrs X' \<inter> S = {}" and "\<forall>a \<in> S. h' ! a = h ! a" and "length h \<le> length h'"
proof -
  have "font_addrs X' \<inter> S = {} \<and> (\<forall>a \<in> S. h' ! a = h ! a) \<and> length h \<le> length h'"
  proof (cases c)
    case (CreateVariant name inherit link)
    with c have cv: "createVariant h X name inherit link = Inr (h', X')" by simp
    have "font_addrs X' \<inter> S = {}"
    proof (rule ccontr)
      assume "font_addrs X' \<inter> S \<noteq> {}"
      then obtain a where a: "a \<in> font_addrs X'" "a \<in> S" by blast
      from createVariant_addrs [OF cv a(1)] a(2) S show False by auto
    qed
    moreover from createVariant_old [OF cv] S(1) have "\<forall>a \<in> S. h' ! a = h ! a" by simp
    moreover from createVariant_old(1) [OF cv] have "length h \<le> length h'" by simp
    ultimately show ?thesis by simp
  next
    case (DefineChars name cs)
    with c have dc: "defineChars h X name cs = Inr (h', X')" by simp
    from defineChars_summary [OF dc] have "X' = X" "length h' = length h" by auto
    moreover from defineChars_writes [OF dc] S(2) have "\<forall>a \<in> S. h' ! a = h ! a" by auto
    ultimately show ?thesis using S(2) by simp
  next
    case (DefineDelimiters delims)
    with c have "h' = h" "X' = defineDelimiters X delims" by auto
    with S(2) show ?thesis by (simp add: font_addrs_def defineDelimiters_def)
  qed
  then show "font_addrs X' \<inter> S = {}" and "\<forall>a \<in> S. h' ! a = h ! a" and "length h \<le> length h'"
    by simp_all
qed

lemma do_calls_isolated:
  "do_calls cs (h, X) = Inr (h', X') \<Longrightarrow> \<forall>a \<in> S. a < length h \<Longrightarrow> font_addrs X \<inter> S = {} \<Longrightarrow>
   (\<forall>a \<in> S. h' ! a = h ! a) \<and> length h \<le> length h'"
proof (induction cs arbitrary: h X)
  case Nil
  then show ?case by simp
next
  case (Cons c cs)
  from Cons.prems(1) obtain h1 X1 where c: "do_call c (h, X) = Inr (h1, X1)"
    and cs: "do_calls cs (h1, X1) = Inr (h', X')"
    by (cases "do_call c (h, X)") auto
  note i = do_call_isolated [OF c Cons.prems(2,3)]
  from i(3) Cons.prems(2) have "\<forall>a \<in> S. a < length h1" by auto
  from Cons.IH [OF cs this i(1)] i(2,3) show ?case by auto
qed

lemma get_prop_closed:
  assumes cl: "proto_closed h S" and len: "length h \<le> length h'"
    and same: "\<forall>b \<in> S. h' ! b = h ! b"
  shows "a \<in> S \<Longrightarrow> get_prop h' a n = get_prop h a n"
proof (induction a rule: less_induct)
  case (less a)
  from cl less.prems have a: "a < length h" and pr: "\<forall>p. proto (h ! a) = Some p \<longrightarrow> p \<in> S"
    unfolding proto_closed_def by auto
  from same less.prems have eq: "h' ! a = h ! a" by simp
  from a len have a': "a < length h'" by simp
  show ?case
  proof (cases "proto (h ! a)")
    case None
    with a a' eq show ?thesis
      by (subst get_prop.simps, subst (2) get_prop.simps) (simp split: option.splits)
  next
    case (Some p)
    with pr have pS: "p \<in> S" by simp
    show ?thesis
    proof (cases "p < a")
      case True
      from less.IH [OF True pS] Some a a' eq True show ?thesis
        by (subst get_prop.simps, subst (2) get_prop.simps) (simp split: option.splits)
    next
      case False
      with Some a a' eq show ?thesis
        by (subst get_prop.simps, subst (2) get_prop.simps) (simp split: option.splits)
    qed
  qed
qed

lemma proto_closed_frame:
  "proto_closed h S \<Longrightarrow> length h \<le> length h' \<Longrightarrow> \<forall>b \<in> S. h' ! b = h ! b \<Longrightarrow> proto_closed h' S"
  unfolding proto_closed_def by fastforce

lemma do_calls_append:
  "do_calls (cs @ ds) s = (case do_calls cs s of Inl e \<Rightarrow> Inl e | Inr s' \<Rightarrow> do_calls ds s')"
  by (induction cs arbitrary: s) (simp_all split: sum.splits)

lemma createVariants_calls:
  "createVariants h this vs =
     do_calls (map (\<lambda>v. CreateVariant (key_of (nth_opt v 0)) (nth_opt v 1) (nth_opt v 2)) vs) (h, this)"
  by (induction vs arbitrary: h this) (simp_all split: sum.splits)

lemma defineAllChars_calls:
  "defineAllChars h this ds = do_calls (map (\<lambda>(name, cs). DefineChars name cs) ds) (h, this)"
  by (induction ds arbitrary: h this) (auto split: sum.splits)

lemma FontData_new_calls:
  "FontData_new h C = do_calls (constructor_calls C) (h, initial_font C)"
  by (simp add: FontData_new_def constructor_calls_def initial_font_def Let_def
      createVariants_calls defineAllChars_calls do_calls_append split: sum.splits)

lemma createVariant_protos:
  assumes cv: "createVariant h this name inherit link = Inr (h', this')"
    and a: "length h \<le> a" "a < length h'" and p: "proto (h' ! a) = Some p"
  shows "p \<in> font_addrs this \<or> (p = length h \<and> a = Suc (length h))"
  using cv
proof (cases rule: createVariant_cases)
  case (unlinked pr)
  from unlinked(2) a have "a = length h" by simp
  with unlinked(2) p have "pr = Some p" by simp
  with unlinked(1) obtain i vi where "variant this i = Some vi" "p = chars vi" by auto
  from font_addrsI [OF this(1), of p] this(2) show ?thesis by simp
next
  case (linked pr l vl)
  from linked(5) a have "a = length h \<or> a = Suc (length h)" by auto
  then show ?thesis
  proof
    assume "a = length h"
    with linked(5) p have "pr = Some p" by simp
    with linked(1) obtain i vi where "variant this i = Some vi" "p = chars vi" by auto
    from font_addrsI [OF this(1), of p] this(2) show ?thesis by simp
  next
    assume "a = Suc (length h)"
    with linked(5) p show ?thesis by (simp add: nth_append)
  qed
qed

lemma owns_region_createVariant:
  assumes cv: "createVariant h this name inherit link = Inr (h', this')"
    and r: "owns_region h this lo"
  shows "owns_region h' this' lo"
proof -
  from r have lo: "lo \<le> length h" and ad: "\<forall>a \<in> font_addrs this. lo \<le> a \<and> a < length h"
    and cl: "proto_closed h {lo..<length h}"
    unfolding owns_region_def by simp_all
  note old = createVariant_old [OF cv]
  have ad': "\<forall>a \<in> font_addrs this'. lo \<le> a \<and> a < length h'"
  proof
    fix a assume "a \<in> font_addrs this'"
    from createVariant_addrs [OF cv this]
    have "a \<in> font_addrs this \<or> (length h \<le> a \<and> a < length h')" .
    then show "lo \<le> a \<and> a < length h'"
    proof
      assume "a \<in> font_addrs this"
      with ad have "lo \<le> a \<and> a < length h" by simp
      with old(1) show ?thesis by simp
    next
      assume "length h \<le> a \<and> a < length h'"
      with lo show ?thesis by simp
    qed
  qed
  have new: "lo \<le> p \<and> p < length h'"
    if "length h \<le> a" "a < length h'" "proto (h' ! a) = Some p" for a p
  proof -
    from createVariant_protos [OF cv that]
    have "p \<in> font_addrs this \<or> (p = length h \<and> a = Suc (length h))" .
    then show ?thesis
    proof
      assume "p \<in> font_addrs this"
      with ad have "lo \<le> p \<and> p < length h" by simp
      with old(1) show ?thesis by simp
    next
      assume "p = length h \<and> a = Suc (length h)"
      with lo that(2) show ?thesis by simp
    qed
  qed
  have "proto_closed h' {lo..<length h'}"
    unfolding proto_closed_def
  proof (intro ballI conjI allI impI)
    fix a assume "a \<in> {lo..<length h'}"
    then show "a < length h'" by simp
  next
    fix a p assume a: "a \<in> {lo..<length h'}" and p: "proto (h' ! a) = Some p"
    show "p \<in> {lo..<length h'}"
    proof (cases "a < length h")
      case True
      with old(2) p have pa: "proto (h ! a) = Some p" by simp
      from a True have "a \<in> {lo..<length h}" by simp
      with cl pa have "p \<in> {lo..<length h}" unfolding proto_closed_def by blast
      with old(1) show ?thesis by simp
    next
      case False
      with a have "length h \<le> a" "a < length h'" by simp_all
      from new [OF this p] show ?thesis by simp
    qed
  qed
  with ad' lo old(1) show ?thesis unfolding owns_region_def by simp
qed

lemma proto_closed_same_protos:
  assumes cl: "proto_closed h S" and len: "length h' = length h"
    and pr: "\<And>b. proto (h' ! b) = proto (h ! b)"
  shows "proto_closed h' S"
  unfolding proto_closed_def
proof (intro ballI conjI allI impI)
  fix a assume a: "a \<in> S"
  with cl have "a < length h" unfolding proto_closed_def by blast
  with len show "a < length h'" by simp
next
  fix a p assume a: "a \<in> S" and "proto (h' ! a) = Some p"
  with pr [of a] have "proto (h ! a) = Some p" by simp
  with cl a show "p \<in> S" unfolding proto_closed_def by blast
qed

lemma owns_region_defineChars:
  assumes dc: "defineChars h this name cs = Inr (h', this')" and r: "owns_region h this lo"
  shows "owns_region h' this' lo"
proof -
  from defineChars_summary [OF dc] obtain v where e: "this' = this" "length h' = length h"
    and pr: "\<forall>b. proto (h' ! b) = proto (h ! b)" by blast
  from r have lo: "lo \<le> length h" and ad: "\<forall>a \<in> font_addrs this. lo \<le> a \<and> a < length h"
    and cl: "proto_closed h {lo..<length h}"
    unfolding owns_region_def by simp_all
  from pr have "proto (h' ! b) = proto (h ! b)" for b by simp
  from proto_closed_same_protos [OF cl e(2) this] have "proto_closed h' {lo..<length h}" .
  with lo ad e show ?thesis unfolding owns_region_def by simp
qed

lemma owns_region_do_call:
  assumes c: "do_call c (h, this) = Inr (h', this')" and r: "owns_region h this lo"
  shows "owns_region h' this' lo"
proof (cases c)
  case (CreateVariant name inherit link)
  with c have "createVariant h this name inherit link = Inr (h', this')" by simp
  from owns_region_createVariant [OF this r] show ?thesis .
next
  case (DefineChars name cs)
  with c have "defineChars h this name cs = Inr (h', this')" by simp
  from owns_region_defineChars [OF this r] show ?thesis .
next
  case (DefineDelimiters delims)
  with c have "h' = h" "this' = defineDelimiters this delims" by auto
  with r show ?thesis unfolding owns_region_def by (simp add: font_addrs_def defineDelimiters_def)
qed

lemma owns_region_do_calls:
  "do_calls cs (h, this) = Inr (h', this') \<Longrightarrow> owns_region h this lo \<Longrightarrow> owns_region h' this' lo"
proof (induction cs arbitrary: h this)
  case Nil
  then show ?case by simp
next
  case (Cons c cs)
  from Cons.prems(1) obtain h1 this1 where c: "do_call c (h, this) = Inr (h1, this1)"
    and cs: "do_calls cs (h1, this1) = Inr (h', this')"
    by (cases "do_call c (h, this)") auto
  from Cons.IH [OF cs owns_region_do_call [OF c Cons.prems(2)]] show ?case .
qed

lemma font_addrs_initial: "font_addrs (initial_font C) = {}"
  by (simp add: font_addrs_def initial_font_def)

lemma FontData_new_region:
  assumes "FontData_new h C = Inr (h', this)"
  shows "owns_region h' this (length h)" and "\<forall>a < length h. h' ! a = h ! a"
    and "length h \<le> length h'"
proof -
  from assms have cs: "do_calls (constructor_calls C) (h, initial_font C) = Inr (h', this)"
    by (simp add: FontData_new_calls)
  have "owns_region h (initial_font C) (length h)"
    by (simp add: owns_region_def font_addrs_initial proto_closed_def)
  from owns_region_do_calls [OF cs this] show "owns_region h' this (length h)" .
  from do_calls_isolated [OF cs, of "{..<length h}"]
  show "\<forall>a < length h. h' ! a = h ! a" and "length h \<le> length h'"
    by (simp_all add: font_addrs_initial)
qed

text \<open>Calls on a font do not change what another font, built in its own region, reads.\<close>

lemma do_calls_other_font:
  assumes cs: "do_calls cs (h, X) = Inr (h', X')"
    and Y: "\<forall>a \<in> font_addrs Y. a \<in> S" and cl: "proto_closed h S"
    and dis: "font_addrs X \<inter> S = {}"
  shows "do_query h' Y q = do_query h Y q"
proof -
  from cl have S: "\<forall>a \<in> S. a < length h" unfolding proto_closed_def by simp
  from do_calls_isolated [OF cs S dis]
  have same: "\<forall>a \<in> S. h' ! a = h ! a" and len: "length h \<le> length h'" by simp_all
  have "getChar h' Y name n = getChar h Y name n" for name n
  proof (cases "variant Y name")
    case None
    then show ?thesis by (simp add: getChar_None)
  next
    case (Some v)
    from Y font_addrsI [OF Some, of "chars v"] have "chars v \<in> S" by simp
    from get_prop_closed [OF cl len same this] Some show ?thesis by (simp add: getChar_Some)
  qed
  then show ?thesis by (cases q) simp_all
qed

text \<open>
  C7. Two instances made by the constructor from the same class, one after the other in
  the same store, are independent: whatever sequence of \<open>createVariant\<close>,
  \<open>defineChars\<close> and \<open>defineDelimiters\<close> calls is applied to one of them, every
  query of the other (\<open>getChar\<close>, \<open>getDelimiter\<close>, \<open>getSizeVariant\<close>,
  \<open>getVariant\<close>, the parameters) returns what it returned before the calls.
\<close>

theorem instances_independent:
  assumes A: "FontData_new h0 C = Inr (h1, A)" and B: "FontData_new h1 C = Inr (h2, B)"
  shows "(\<forall>cs h3 A'. do_calls cs (h2, A) = Inr (h3, A') \<longrightarrow>
            (\<forall>q. do_query h3 B q = do_query h2 B q))
     \<and> (\<forall>cs h3 B'. do_calls cs (h2, B) = Inr (h3, B') \<longrightarrow>
            (\<forall>q. do_query h3 A q = do_query h2 A q))"
proof -
  note rA = FontData_new_region [OF A]
  note rB = FontData_new_region [OF B]
  from rA(1) have adA: "\<forall>a \<in> font_addrs A. a \<in> {length h0..<length h1}"
    and clA1: "proto_closed h1 {length h0..<length h1}"
    unfolding owns_region_def by simp_all
  from rB(1) have adB: "\<forall>a \<in> font_addrs B. a \<in> {length h1..<length h2}"
    and clB: "proto_closed h2 {length h1..<length h2}"
    unfolding owns_region_def by simp_all
  from rB(2) have "\<forall>b \<in> {length h0..<length h1}. h2 ! b = h1 ! b" by simp
  from proto_closed_frame [OF clA1 rB(3) this]
  have clA: "proto_closed h2 {length h0..<length h1}" .
  from adA have disA: "font_addrs A \<inter> {length h1..<length h2} = {}" by auto
  from adB have disB: "font_addrs B \<inter> {length h0..<length h1} = {}" by auto
  show ?thesis
  proof (intro conjI allI impI)
    fix cs h3 A' q assume "do_calls cs (h2, A) = Inr (h3, A')"
    from do_calls_other_font [OF this adB clB disA] show "do_query h3 B q = do_query h2 B q" .
  next
    fix cs h3 B' q assume "do_calls cs (h2, B) = Inr (h3, B')"
    from do_calls_other_font [OF this adA clA disB] show "do_query h3 A q = do_query h2 A q" .
  qed
qed

theorem instances_independent_witness:
  "\<exists>h2 B h3 A'.
     FontData_new [] small_class = Inr (small_heap, small_font)
     \<and> FontData_new small_heap small_class = Inr (h2, B)
     \<and> do_calls [DefineChars ''normal'' [65 \<mapsto> CharData3 0.7 0 0.8],
                 CreateVariant ''script'' (Some ''normal'') None,
                 DefineDelimiters [41 \<mapsto> paren_delim]] (h2, small_font) = Inr (h3, A')
     \<and> do_query h3 B (GetChar ''bold-italic'' 65) = do_query h2 B (GetChar ''bold-italic'' 65)
     \<and> do_query h3 B (GetChar ''normal'' 65) = do_query h2 B (GetChar ''normal'' 65)
     \<and> do_query h3 B (GetVariant ''script'') = do_query h2 B (GetVariant ''script'')
     \<and> do_query h3 B (GetDelimiter 41) = do_query h2 B (GetDelimiter 41)"
proof -
  let ?cs = "[DefineChars ''normal'' [65 \<mapsto> CharData3 0.7 0 (0.8 :: real)],
              CreateVariant ''script'' (Some ''normal'') None,
              DefineDelimiters [41 \<mapsto> paren_delim]] :: unit call list"
  have "\<exists>h2 B h3 A'. FontData_new small_heap small_class = Inr (h2, B)
          \<and> do_calls ?cs (h2, small_font) = Inr (h3, A')"
    by (simp add: FontData_new_def small_class_def small_heap_def small_font_def eval_defs)
  then obtain h2 B h3 A' where B: "FontData_new small_heap small_class = Inr (h2, B)"
    and cs: "do_calls ?cs (h2, small_font) = Inr (h3, A')"
    by blast
  note t = instances_independent [OF small_new B, THEN conjunct1, THEN spec, THEN spec, THEN spec,
      THEN mp, OF cs, THEN spec]
  from small_new B cs t [of "GetChar ''bold-italic'' 65"] t [of "GetChar ''normal'' 65"]
    t [of "GetVariant ''script''"] t [of "GetDelimiter 41"]
  show ?thesis by blast
qed

subsection \<open>The stores the class builds\<close>

text \<open>
  The calls keep the prototypes below the objects, from the empty store on, so the
  lookups never meet the guard of \<open>chain\<close> and \<open>get_prop\<close>.
\<close>

lemma font_addrs_bound: "wf_font h this \<Longrightarrow> a \<in> font_addrs this \<Longrightarrow> a < length h"
  unfolding font_addrs_def using wf_chars wf_linked by blast

lemma wf_heap_do_call:
  assumes c: "do_call c (h, this) = Inr (h', this')" and wf: "wf_font h this" and wh: "wf_heap h"
  shows "wf_heap h'"
proof (cases c)
  case (CreateVariant name inherit link)
  with c have cv: "createVariant h this name inherit link = Inr (h', this')" by simp
  note old = createVariant_old [OF cv]
  show ?thesis
    unfolding wf_heap_def
  proof (intro allI impI)
    fix a p assume a: "a < length h'" and p: "proto (h' ! a) = Some p"
    show "p < a"
    proof (cases "a < length h")
      case True
      with old(2) p have "proto (h ! a) = Some p" by simp
      with wh True show ?thesis unfolding wf_heap_def by blast
    next
      case False
      then have le: "length h \<le> a" by simp
      from createVariant_protos [OF cv le a p]
      show ?thesis
      proof
        assume "p \<in> font_addrs this"
        from font_addrs_bound [OF wf this] le show ?thesis by simp
      next
        assume "p = length h \<and> a = Suc (length h)"
        then show ?thesis by simp
      qed
    qed
  qed
next
  case (DefineChars name cs)
  with c have dc: "defineChars h this name cs = Inr (h', this')" by simp
  from defineChars_summary [OF dc] obtain v where len: "length h' = length h"
    and pr: "\<forall>b. proto (h' ! b) = proto (h ! b)" by blast
  show ?thesis
    unfolding wf_heap_def
  proof (intro allI impI)
    fix a p assume "a < length h'" and "proto (h' ! a) = Some p"
    with len pr have "a < length h" "proto (h ! a) = Some p" by simp_all
    with wh show "p < a" unfolding wf_heap_def by blast
  qed
next
  case (DefineDelimiters delims)
  with c wh show ?thesis by auto
qed

lemma wf_heap_do_calls:
  "do_calls cs (h, this) = Inr (h', this') \<Longrightarrow> wf_font h this \<Longrightarrow> wf_heap h \<Longrightarrow> wf_heap h'"
proof (induction cs arbitrary: h this)
  case Nil
  then show ?case by simp
next
  case (Cons c cs)
  from Cons.prems(1) obtain h1 this1 where c: "do_call c (h, this) = Inr (h1, this1)"
    and cs: "do_calls cs (h1, this1) = Inr (h', this')"
    by (cases "do_call c (h, this)") auto
  from Cons.IH [OF cs do_call_wf [OF c Cons.prems(2)] wf_heap_do_call [OF c Cons.prems(2,3)]]
  show ?case .
qed

lemma FontData_new_wf_heap:
  assumes "FontData_new h C = Inr (h', this)" and "wf_heap h"
  shows "wf_heap h'"
proof -
  from assms(1) have cs: "do_calls (constructor_calls C) (h, initial_font C) = Inr (h', this)"
    by (simp add: FontData_new_calls)
  have "wf_font h (initial_font C)" by (rule wf_font_empty) (simp add: initial_font_def)
  from wf_heap_do_calls [OF cs this assms(2)] show ?thesis .
qed

lemma wf_heap_empty: "wf_heap []"
  by (simp add: wf_heap_def)

text \<open>In such a store the test in \<open>get_prop\<close> and \<open>chain\<close> always succeeds.\<close>

lemma get_prop_wf_heap:
  assumes "wf_heap h" and "a < length h"
  shows "get_prop h a n =
           (case own (h ! a) n of
              Some x \<Rightarrow> Some x
            | None \<Rightarrow> (case proto (h ! a) of None \<Rightarrow> None | Some p \<Rightarrow> get_prop h p n))"
proof -
  from assms have "\<forall>p. proto (h ! a) = Some p \<longrightarrow> p < a" unfolding wf_heap_def by blast
  with assms(2) show ?thesis
    by (subst get_prop.simps) (simp split: option.splits)
qed

text \<open>
  The constructor of \<open>FontData\<close> itself succeeds: fourteen variants, six of them with
  a link, and no character yet.
\<close>

lemma default_new: "\<exists>h this. FontData_new [] (FontData_class :: unit FontClass) = Inr (h, this)
   \<and> length h = 20
   \<and> getChar h this ''bold-sans-serif-italic'' 65 = Inr None
   \<and> getChar h this ''bold-sans'' 65 = Inl TypeError"
  by (simp add: FontData_new_def FontData_class_def eval_defs getChar_def get_prop.simps)

end
